theory Spec2Isabelle
  imports Main "HOL-Library.Monad_Syntax"
begin

section \<open>Data model (greedy\_memory\_planner.h)\<close>

text \<open>
  The planner is a C++ object holding fixed arrays of \<open>kMaxBufferCount\<close> elements.
  An array is a function from its index, and a \<open>ListEntry*\<close> into
  \<open>buffers_sorted_by_offset_\<close> is the index of the element, \<open>None\<close> being the
  null pointer. The trailing underscore of the member names is dropped, and the
  member \<open>size\<close> of \<open>BufferRequirements\<close> is called \<open>size_bytes\<close>.

  A C++ \<open>int\<close> has 32 bits. Its values are the integers from \<open>INT_MIN\<close> to
  \<open>INT_MAX\<close>, and the sums, differences and products of offsets and sizes wrap
  around: \<open>int32\<close> maps the exact result to the value in that range that differs
  from it by a multiple of 4294967296. The counters (\<open>buffer_count_\<close>, \<open>next_free_entry_\<close>, the
  loop indices) are incremented only below a bound that is itself an \<open>int\<close>, so
  their increments are exact.
\<close>

definition INT_MAX :: int where
  "INT_MAX = 2147483647"

definition INT_MIN :: int where
  "INT_MIN = - 2147483648"

definition int32 :: "int \<Rightarrow> int" where
  "int32 x = (x + 2147483648) mod 4294967296 - 2147483648"

definition int_value :: "int \<Rightarrow> bool" where
  "int_value x \<longleftrightarrow> INT_MIN \<le> x \<and> x \<le> INT_MAX"

definition kMaxBufferCount :: int where
  "kMaxBufferCount = 1024"

record BufferRequirements =
  size_bytes :: int
  first_time_used :: int
  last_time_used :: int

record ListEntry =
  offset :: int
  requirements_index :: int
  next_entry_index :: int

record GreedyMemoryPlanner =
  requirements :: "int \<Rightarrow> BufferRequirements"
  buffer_count :: int
  buffer_sizes_sorted_by_size :: "int \<Rightarrow> int"
  buffer_ids_sorted_by_size :: "int \<Rightarrow> int"
  buffers_sorted_by_offset :: "int \<Rightarrow> ListEntry"
  next_free_entry :: int
  buffer_offsets :: "int \<Rightarrow> int"
  need_to_calculate_offsets :: bool

text \<open>
  The constructor initialises two members only: every array, and \<open>next_free_entry_\<close>,
  keep what the storage of the object held before. That earlier content is the
  argument \<open>mem\<close>.
\<close>

definition GreedyMemoryPlanner_ctor :: "GreedyMemoryPlanner \<Rightarrow> GreedyMemoryPlanner" where
  "GreedyMemoryPlanner_ctor mem = mem\<lparr>buffer_count := 0, need_to_calculate_offsets := True\<rparr>"

subsection \<open>The diagnostic sink\<close>

text \<open>
  Modelled from the spec: \<open>tflite::ErrorReporter\<close> (error\_reporter.h) is not part of
  the sources. The spec describes it as a sink with a single operation that accepts a
  formatted message; the model keeps the calls it received, each as the format string
  and the arguments of the call, oldest first.
\<close>

datatype report_arg = IntArg int | StrArg string

type_synonym ErrorReporter = "(string \<times> report_arg list) list"

definition Report :: "ErrorReporter \<Rightarrow> string \<Rightarrow> report_arg list \<Rightarrow> ErrorReporter" where
  "Report error_reporter format args = error_reporter @ [(format, args)]"

section \<open>Operations (greedy\_memory\_planner.cc)\<close>

subsection \<open>AddBuffer\<close>

definition AddBuffer ::
  "GreedyMemoryPlanner \<Rightarrow> ErrorReporter \<Rightarrow> int \<Rightarrow> int \<Rightarrow> int \<Rightarrow>
     bool \<times> ErrorReporter \<times> GreedyMemoryPlanner" where
  "AddBuffer this error_reporter size_arg first_time_used_arg last_time_used_arg =
     (if buffer_count this \<ge> kMaxBufferCount then
        (False,
         Report error_reporter ''Too many buffers (max is %d)'' [IntArg kMaxBufferCount],
         this)
      else
        let current = \<lparr>size_bytes = size_arg,
                       first_time_used = first_time_used_arg,
                       last_time_used = last_time_used_arg\<rparr>;
            this = this\<lparr>requirements := (requirements this)(buffer_count this := current)\<rparr>;
            this = this\<lparr>buffer_count := buffer_count this + 1\<rparr>;
            this = this\<lparr>need_to_calculate_offsets := True\<rparr>
        in (True, error_reporter, this))"

subsection \<open>DoesEntryOverlapInTime and NextValidEntry\<close>

definition DoesEntryOverlapInTime :: "GreedyMemoryPlanner \<Rightarrow> int \<Rightarrow> int \<Rightarrow> int \<Rightarrow> bool" where
  "DoesEntryOverlapInTime this entry first_time_used_arg last_time_used_arg =
     (let entry_requirements =
            requirements this (requirements_index (buffers_sorted_by_offset this entry))
      in if first_time_used entry_requirements > last_time_used_arg then False
         else if first_time_used_arg > last_time_used entry_requirements then False
         else True)"

text \<open>
  The \<open>do ... while (true)\<close> loop of \<open>NextValidEntry\<close>. It ends only at a node that
  overlaps in time or at a node without successor, so on a cyclic chain it does not
  return: the result is \<open>None\<close> then. \<open>Some None\<close> is the null pointer returned.
\<close>

partial_function (option) NextValidEntry_loop ::
  "GreedyMemoryPlanner \<Rightarrow> int \<Rightarrow> int \<Rightarrow> int \<Rightarrow> int option option" where
  "NextValidEntry_loop this candidate_next_entry first_time_used_arg last_time_used_arg =
     (if DoesEntryOverlapInTime this candidate_next_entry first_time_used_arg last_time_used_arg
      then Some (Some candidate_next_entry)
      else if next_entry_index (buffers_sorted_by_offset this candidate_next_entry) = -1
      then Some None
      else NextValidEntry_loop this
             (next_entry_index (buffers_sorted_by_offset this candidate_next_entry))
             first_time_used_arg last_time_used_arg)"

declare NextValidEntry_loop.simps [code]

definition NextValidEntry ::
  "GreedyMemoryPlanner \<Rightarrow> int option \<Rightarrow> int \<Rightarrow> int \<Rightarrow> int option option" where
  "NextValidEntry this start first_time_used_arg last_time_used_arg =
     (case start of
        None \<Rightarrow> Some None
      | Some s \<Rightarrow>
          if next_entry_index (buffers_sorted_by_offset this s) = -1 then Some None
          else NextValidEntry_loop this (next_entry_index (buffers_sorted_by_offset this s))
                 first_time_used_arg last_time_used_arg)"

subsection \<open>ReverseSortInPlace\<close>

text \<open>
  Modelled from the spec: \<open>ReverseSortInPlace\<close> (reverse\_sort\_in\_place.h) is not part
  of the sources. The spec asks for the two parallel arrays, sizes and ids, to be
  sorted in descending order of size with a stable tie-break: equal sizes keep their
  original order. The first \<open>n\<close> elements of both arrays are sorted together, the
  rest is left as it is.
\<close>

definition ReverseSortInPlace ::
  "(int \<Rightarrow> int) \<Rightarrow> (int \<Rightarrow> int) \<Rightarrow> int \<Rightarrow> (int \<Rightarrow> int) \<times> (int \<Rightarrow> int)" where
  "ReverseSortInPlace values ids n =
     (let sorted_pairs = sort_key (\<lambda>p. - fst p) (map (\<lambda>j. (values j, ids j)) [0..n - 1])
      in (\<lambda>j. if 0 \<le> j \<and> j < n then fst (sorted_pairs ! nat j) else values j,
          \<lambda>j. if 0 \<le> j \<and> j < n then snd (sorted_pairs ! nat j) else ids j))"

subsection \<open>CalculateOffsetsIfNeeded\<close>

text \<open>
  The gap scan, \<open>while (true)\<close> at lines 118 to 136. \<open>NextValidEntry\<close> of the null
  pointer is the null pointer, so the scan of a null candidate ends at once; the
  dereference of a null candidate after a non-null \<open>next_entry\<close> cannot be reached
  and has no defined result.
\<close>

partial_function (option) gap_loop ::
  "GreedyMemoryPlanner \<Rightarrow> int option \<Rightarrow> int \<Rightarrow> int \<Rightarrow> int \<Rightarrow> int option option" where
  "gap_loop this candidate_entry wanted_size wanted_first_time_used wanted_last_time_used =
     Option.bind
       (NextValidEntry this candidate_entry wanted_first_time_used wanted_last_time_used)
       (\<lambda>next_entry.
          case next_entry of
            None \<Rightarrow> Some candidate_entry
          | Some n \<Rightarrow>
              (case candidate_entry of
                 None \<Rightarrow> None
               | Some c \<Rightarrow>
                   let candidate_requirements =
                         requirements this (requirements_index (buffers_sorted_by_offset this c));
                       gap = int32 (offset (buffers_sorted_by_offset this n)
                                    - int32 (offset (buffers_sorted_by_offset this c)
                                             + size_bytes candidate_requirements))
                   in if gap \<ge> wanted_size then Some candidate_entry
                      else gap_loop this (Some n) wanted_size
                             wanted_first_time_used wanted_last_time_used))"

declare gap_loop.simps [code]

text \<open>
  The ordered insertion, \<open>while (true)\<close> at lines 159 to 176: \<open>current_entry\<close> walks
  from the head until it has no successor or its successor lies beyond \<open>offset\<close>.
\<close>

partial_function (option) insert_loop ::
  "GreedyMemoryPlanner \<Rightarrow> int \<Rightarrow> int \<Rightarrow> int \<Rightarrow> int \<Rightarrow> GreedyMemoryPlanner option" where
  "insert_loop this current_entry new_entry new_entry_index offset_arg =
     (let pool = buffers_sorted_by_offset this;
          next_index = next_entry_index (pool current_entry)
      in if next_index = -1 then
           let pool = pool(current_entry := (pool current_entry)\<lparr>next_entry_index := new_entry_index\<rparr>);
               pool = pool(new_entry := (pool new_entry)\<lparr>next_entry_index := -1\<rparr>)
           in Some (this\<lparr>buffers_sorted_by_offset := pool\<rparr>)
         else if offset (pool next_index) > offset_arg then
           let pool = pool(new_entry := (pool new_entry)
                        \<lparr>next_entry_index := next_entry_index (pool current_entry)\<rparr>);
               pool = pool(current_entry := (pool current_entry)\<lparr>next_entry_index := new_entry_index\<rparr>)
           in Some (this\<lparr>buffers_sorted_by_offset := pool\<rparr>)
         else insert_loop this next_index new_entry new_entry_index offset_arg)"

declare insert_loop.simps [code]

text \<open>The body of the placement loop, lines 99 to 176, for the \<open>i\<close>-th buffer by size.\<close>

definition place_buffer :: "GreedyMemoryPlanner \<Rightarrow> int \<Rightarrow> GreedyMemoryPlanner option" where
  "place_buffer this i =
     (let first_entry = 0;
          buffer_id = buffer_ids_sorted_by_size this i;
          wanted_requirements = requirements this buffer_id;
          wanted_size = size_bytes wanted_requirements;
          wanted_first_time_used = first_time_used wanted_requirements;
          wanted_last_time_used = last_time_used wanted_requirements
      in Option.bind
           (if DoesEntryOverlapInTime this first_entry wanted_first_time_used wanted_last_time_used
            then Some (Some first_entry)
            else NextValidEntry this (Some first_entry) wanted_first_time_used wanted_last_time_used)
           (\<lambda>candidate_entry.
              Option.bind
                (gap_loop this candidate_entry wanted_size
                   wanted_first_time_used wanted_last_time_used)
                (\<lambda>candidate_entry.
                   let offset_var =
                         (case candidate_entry of
                            Some c \<Rightarrow>
                              int32 (offset (buffers_sorted_by_offset this c)
                                     + size_bytes (requirements this
                                         (requirements_index (buffers_sorted_by_offset this c))))
                          | None \<Rightarrow> 0);
                       this = this\<lparr>buffer_offsets := (buffer_offsets this)(buffer_id := offset_var)\<rparr>;
                       new_entry = next_free_entry this;
                       pool = buffers_sorted_by_offset this;
                       this = this\<lparr>buffers_sorted_by_offset :=
                                pool(new_entry := (pool new_entry)
                                  \<lparr>offset := offset_var, requirements_index := buffer_id\<rparr>)\<rparr>;
                       new_entry_index = next_free_entry this;
                       this = this\<lparr>next_free_entry := next_free_entry this + 1\<rparr>
                   in insert_loop this first_entry new_entry new_entry_index offset_var)))"

text \<open>The placement loop, \<open>for (int i = 1; i < buffer_count_; ++i)\<close>.\<close>

partial_function (option) place_loop ::
  "GreedyMemoryPlanner \<Rightarrow> int \<Rightarrow> GreedyMemoryPlanner option" where
  "place_loop this i =
     (if i < buffer_count this
      then Option.bind (place_buffer this i) (\<lambda>this. place_loop this (i + 1))
      else Some this)"

declare place_loop.simps [code]

definition CalculateOffsetsIfNeeded :: "GreedyMemoryPlanner \<Rightarrow> GreedyMemoryPlanner option" where
  "CalculateOffsetsIfNeeded this =
     (if \<not> need_to_calculate_offsets this \<or> buffer_count this = 0 then Some this
      else
        let this = this\<lparr>need_to_calculate_offsets := False\<rparr>;
            this = fold (\<lambda>i this.
                     this\<lparr>buffer_sizes_sorted_by_size :=
                            (buffer_sizes_sorted_by_size this)(i := size_bytes (requirements this i)),
                          buffer_ids_sorted_by_size :=
                            (buffer_ids_sorted_by_size this)(i := i)\<rparr>)
                     [0..buffer_count this - 1] this;
            sorted_arrays = ReverseSortInPlace (buffer_sizes_sorted_by_size this)
                              (buffer_ids_sorted_by_size this) (buffer_count this);
            this = this\<lparr>buffer_sizes_sorted_by_size := fst sorted_arrays,
                        buffer_ids_sorted_by_size := snd sorted_arrays\<rparr>;
            first_entry = 0;
            pool = buffers_sorted_by_offset this;
            this = this\<lparr>buffers_sorted_by_offset :=
                     pool(first_entry := \<lparr>offset = 0,
                            requirements_index = buffer_ids_sorted_by_size this 0,
                            next_entry_index = -1\<rparr>)\<rparr>;
            this = this\<lparr>next_free_entry := 1\<rparr>
        in place_loop this 1)"

subsection \<open>GetMaximumMemorySize\<close>

text \<open>
  The walk of \<open>GetMaximumMemorySize\<close>: \<open>entry\<close> is the address of an array element
  and never null, so the loop ends only at a node without successor.
\<close>

partial_function (option) max_size_loop ::
  "GreedyMemoryPlanner \<Rightarrow> int \<Rightarrow> int \<Rightarrow> int option" where
  "max_size_loop this entry max_size =
     (let pool = buffers_sorted_by_offset this;
          current_size = int32 (offset (pool entry)
                                + size_bytes (requirements this (requirements_index (pool entry))));
          max_size = (if current_size > max_size then current_size else max_size)
      in if next_entry_index (pool entry) = -1 then Some max_size
         else max_size_loop this (next_entry_index (pool entry)) max_size)"

declare max_size_loop.simps [code]

definition GetMaximumMemorySize ::
  "GreedyMemoryPlanner \<Rightarrow> (int \<times> GreedyMemoryPlanner) option" where
  "GetMaximumMemorySize this =
     Option.bind (CalculateOffsetsIfNeeded this)
       (\<lambda>this. if buffer_count this = 0 then Some (0, this)
               else Option.bind (max_size_loop this 0 0) (\<lambda>max_size. Some (max_size, this)))"

subsection \<open>GetBufferCount and GetOffsetForBuffer\<close>

definition GetBufferCount :: "GreedyMemoryPlanner \<Rightarrow> int" where
  "GetBufferCount this = buffer_count this"

text \<open>
  \<open>offset_out\<close> is the content of the location the caller passes as \<open>int* offset\<close>;
  the third component of the result is its content after the call.
\<close>

definition GetOffsetForBuffer ::
  "GreedyMemoryPlanner \<Rightarrow> ErrorReporter \<Rightarrow> int \<Rightarrow> int \<Rightarrow> bool \<times> ErrorReporter \<times> int" where
  "GetOffsetForBuffer this error_reporter buffer_index offset_out =
     (if buffer_index < 0 \<or> buffer_index \<ge> buffer_count this then
        (False,
         Report error_reporter ''buffer index %d is outside range 0 to %d''
           [IntArg buffer_index, IntArg (buffer_count this)],
         offset_out)
      else (True, error_reporter, buffer_offsets this buffer_index))"

subsection \<open>PrintMemoryPlan\<close>

text \<open>C++ division of \<open>int\<close> truncates towards zero.\<close>

definition int_div :: "int \<Rightarrow> int \<Rightarrow> int" where
  "int_div a b = sgn a * sgn b * (\<bar>a\<bar> div \<bar>b\<bar>)"

definition kLineWidth :: int where
  "kLineWidth = 80"

text \<open>A \<open>for\<close> loop over the values \<open>xs\<close> whose body may have no defined result.\<close>

primrec for_each :: "int list \<Rightarrow> (int \<Rightarrow> 's \<Rightarrow> 's option) \<Rightarrow> 's \<Rightarrow> 's option" where
  "for_each [] body s = Some s"
| "for_each (x # xs) body s = Option.bind (body x s) (for_each xs body)"

text \<open>
  The first loop of \<open>PrintMemoryPlan\<close>, lines 206 to 217, on the pair
  \<open>(max_size, max_time)\<close>.
\<close>

definition plan_extent :: "GreedyMemoryPlanner \<Rightarrow> int \<times> int" where
  "plan_extent this =
     fold (\<lambda>i (max_size, max_time).
             let reqs = requirements this i;
                 offset_var = buffer_offsets this i;
                 last_time_used_var = last_time_used reqs;
                 size_var = int32 (offset_var + size_bytes reqs)
             in (if size_var > max_size then size_var else max_size,
                 if last_time_used_var > max_time then last_time_used_var else max_time))
       [0..buffer_count this - 1] (kLineWidth, 0)"

text \<open>
  One line of the diagram, lines 221 to 241. \<open>line\<close> holds the first \<open>kLineWidth\<close>
  characters of the C array, the ones \<open>%s\<close> prints before the terminating zero. A
  write at index \<open>kLineWidth\<close> is inside the array and is overwritten by the
  terminating zero before the line is printed; a write at any other index outside
  \<open>[0, kLineWidth)\<close> is outside the array and has no defined result.
\<close>

definition plan_line :: "GreedyMemoryPlanner \<Rightarrow> int \<Rightarrow> int \<Rightarrow> string option" where
  "plan_line this max_size t =
     for_each [0..buffer_count this - 1]
       (\<lambda>i line.
          let reqs = requirements this i
          in if t < first_time_used reqs \<or> t > last_time_used reqs then Some line
             else
               let offset_var = buffer_offsets this i;
                   size_var = size_bytes reqs;
                   line_start = int_div (int32 (offset_var * kLineWidth)) max_size;
                   line_end = int_div (int32 (int32 (offset_var + size_var) * kLineWidth)) max_size
               in for_each [line_start..line_end - 1]
                    (\<lambda>n line.
                       if 0 \<le> n \<and> n < kLineWidth then
                         Some (line[nat n :=
                                 (if line ! nat n = CHR ''.''
                                  then char_of (of_char CHR ''0'' + i mod 10 :: int)
                                  else CHR ''!'')])
                       else if n = kLineWidth then Some line
                       else None)
                    line)
       (map (\<lambda>c. CHR ''.'') [0..kLineWidth - 1])"

text \<open>
  The loop over \<open>t\<close> ends when \<open>t\<close> exceeds \<open>max_time\<close>; with
  \<open>max_time = INT_MAX\<close> no \<open>int\<close> does, and the call does not return.
\<close>

definition PrintMemoryPlan ::
  "GreedyMemoryPlanner \<Rightarrow> ErrorReporter \<Rightarrow> (ErrorReporter \<times> GreedyMemoryPlanner) option" where
  "PrintMemoryPlan this error_reporter =
     Option.bind (CalculateOffsetsIfNeeded this)
       (\<lambda>this.
          let (max_size, max_time) = plan_extent this
          in if max_time \<ge> INT_MAX then None
             else Option.bind
               (for_each [0..max_time]
                  (\<lambda>t error_reporter.
                     Option.bind (plan_line this max_size t)
                       (\<lambda>line. Some (Report error_reporter ''%s'' [StrArg line])))
                  error_reporter)
               (\<lambda>error_reporter. Some (error_reporter, this)))"

section \<open>Concrete storage and batches of buffers\<close>

text \<open>
  Storage filled with zeros, as a planner object of static storage duration finds it
  before its constructor runs.
\<close>

definition zeroed_storage :: GreedyMemoryPlanner where
  "zeroed_storage =
     \<lparr>requirements = (\<lambda>i. \<lparr>size_bytes = 0, first_time_used = 0, last_time_used = 0\<rparr>),
      buffer_count = 0,
      buffer_sizes_sorted_by_size = (\<lambda>i. 0),
      buffer_ids_sorted_by_size = (\<lambda>i. 0),
      buffers_sorted_by_offset = (\<lambda>i. \<lparr>offset = 0, requirements_index = 0, next_entry_index = 0\<rparr>),
      next_free_entry = 0,
      buffer_offsets = (\<lambda>i. 0),
      need_to_calculate_offsets = False\<rparr>"

text \<open>A batch of \<open>(size, first_time_used, last_time_used)\<close> added in order.\<close>

fun add_buffers ::
  "GreedyMemoryPlanner \<Rightarrow> (int \<times> int \<times> int) list \<Rightarrow> GreedyMemoryPlanner" where
  "add_buffers this [] = this"
| "add_buffers this ((s, f, l) # bs) = add_buffers (snd (snd (AddBuffer this [] s f l))) bs"

section \<open>The placement list and the invariant of the layout\<close>

text \<open>
  The nodes of the offset-ordered list, read from the node \<open>entry\<close> on by following
  \<open>next_entry_index\<close> until a node has no successor. This is the walk that
  \<open>GetMaximumMemorySize\<close> makes from the head, the node at index 0.
\<close>

partial_function (option) entries_from :: "GreedyMemoryPlanner \<Rightarrow> int \<Rightarrow> ListEntry list option" where
  "entries_from this entry =
     (let pool = buffers_sorted_by_offset this
      in if next_entry_index (pool entry) = -1 then Some [pool entry]
         else Option.bind (entries_from this (next_entry_index (pool entry)))
                (\<lambda>rest. Some (pool entry # rest)))"

declare entries_from.simps [code]



text \<open>
  \<open>nxt this\<close> is the successor function of the node pool, and \<open>linked f x xs\<close> says
  that the nodes after \<open>x\<close> are \<open>xs\<close>, in this order, and that the last one has
  no successor.
\<close>

definition nxt :: "GreedyMemoryPlanner \<Rightarrow> int \<Rightarrow> int" where
  "nxt this j = next_entry_index (buffers_sorted_by_offset this j)"

fun linked :: "(int \<Rightarrow> int) \<Rightarrow> int \<Rightarrow> int list \<Rightarrow> bool" where
  "linked f x [] \<longleftrightarrow> f x = -1"
| "linked f x (y # ys) \<longleftrightarrow> f x = y \<and> y \<noteq> -1 \<and> linked f y ys"

text \<open>The time test with the node as last argument, and the byte at which a node ends.\<close>

definition overlaps :: "GreedyMemoryPlanner \<Rightarrow> int \<Rightarrow> int \<Rightarrow> int \<Rightarrow> bool" where
  "overlaps this f l j = DoesEntryOverlapInTime this j f l"

definition end_of :: "GreedyMemoryPlanner \<Rightarrow> int \<Rightarrow> int" where
  "end_of this j =
     int32 (offset (buffers_sorted_by_offset this j)
            + size_bytes (requirements this (requirements_index (buffers_sorted_by_offset this j))))"

text \<open>
  After \<open>k\<close> buffers are placed the list holds the nodes \<open>0, ..., k - 1\<close>, each once,
  the head is node 0 at offset 0, and node \<open>j\<close> holds the \<open>j\<close>-th buffer in size
  order (\<open>placed\<close>): the index of a node in the pool is the rank of its placement.

  \<open>before g a b\<close> is the order of the list: node \<open>a\<close> has the smaller offset, or
  the same offset and was placed earlier. \<open>fits this k\<close> says that the first \<open>k\<close>
  buffers in size order have sizes that are not negative and sum to at most
  \<open>INT_MAX\<close>. \<open>ordered\<close> says that the list is in the order \<open>before\<close>, that no
  offset is negative and that every placed buffer ends at or below the sum of the sizes
  placed, so that no sum of an offset and a size wraps around. \<open>same_input\<close> relates
  two states with the same buffers and size order.
\<close>

definition placed :: "GreedyMemoryPlanner \<Rightarrow> int \<Rightarrow> int list \<Rightarrow> bool" where
  "placed this k xs \<longleftrightarrow>
     linked (nxt this) 0 xs \<and> distinct (0 # xs) \<and> set (0 # xs) = {0..<k} \<and>
     next_free_entry this = k \<and>
     offset (buffers_sorted_by_offset this 0) = 0 \<and>
     (\<forall>j\<in>{0..<k}. requirements_index (buffers_sorted_by_offset this j)
                     = buffer_ids_sorted_by_size this j)"

definition offs :: "GreedyMemoryPlanner \<Rightarrow> int \<Rightarrow> int" where
  "offs this j = offset (buffers_sorted_by_offset this j)"

definition before :: "(int \<Rightarrow> int) \<Rightarrow> int \<Rightarrow> int \<Rightarrow> bool" where
  "before g a b \<longleftrightarrow> g a < g b \<or> (g a = g b \<and> a < b)"

definition prefix_size :: "GreedyMemoryPlanner \<Rightarrow> int \<Rightarrow> int" where
  "prefix_size this k =
     (\<Sum>i\<in>{0..<k}. size_bytes (requirements this (buffer_ids_sorted_by_size this i)))"

definition fits :: "GreedyMemoryPlanner \<Rightarrow> int \<Rightarrow> bool" where
  "fits this k \<longleftrightarrow>
     (\<forall>j\<in>{0..<k}. 0 \<le> size_bytes (requirements this (buffer_ids_sorted_by_size this j))) \<and>
     prefix_size this k \<le> INT_MAX"

definition ordered :: "GreedyMemoryPlanner \<Rightarrow> int \<Rightarrow> int list \<Rightarrow> bool" where
  "ordered this k xs \<longleftrightarrow>
     sorted_wrt (before (offs this)) (0 # xs) \<and>
     (\<forall>j\<in>{0..<k}. 0 \<le> offs this j \<and>
        offs this j + size_bytes (requirements this (buffer_ids_sorted_by_size this j))
          \<le> prefix_size this k)"

definition same_input :: "GreedyMemoryPlanner \<Rightarrow> GreedyMemoryPlanner \<Rightarrow> bool" where
  "same_input this this' \<longleftrightarrow>
     requirements this' = requirements this \<and> buffer_count this' = buffer_count this \<and>
     buffer_ids_sorted_by_size this' = buffer_ids_sorted_by_size this \<and>
     need_to_calculate_offsets this' = need_to_calculate_offsets this"

text \<open>
  The size order is a permutation of the buffer ids that starts with a buffer of
  maximal size.
\<close>

definition sorted_ids :: "GreedyMemoryPlanner \<Rightarrow> bool" where
  "sorted_ids this \<longleftrightarrow>
     buffer_ids_sorted_by_size this ` {0..<buffer_count this} = {0..<buffer_count this} \<and>
     inj_on (buffer_ids_sorted_by_size this) {0..<buffer_count this} \<and>
     (\<forall>i\<in>{0..<buffer_count this}.
        size_bytes (requirements this i)
        \<le> size_bytes (requirements this (buffer_ids_sorted_by_size this 0)))"

text \<open>
  \<open>sizes_fit\<close>: no size is negative and the sizes sum to at most \<open>INT_MAX\<close>.
  The state of a planner whose plan is current (\<open>planned\<close>), and what every planner
  that the public operations can produce satisfies (\<open>planner_inv\<close>).
\<close>

definition sizes_fit :: "GreedyMemoryPlanner \<Rightarrow> bool" where
  "sizes_fit this \<longleftrightarrow>
     (\<forall>i\<in>{0..<buffer_count this}. 0 \<le> size_bytes (requirements this i)) \<and>
     (\<Sum>i\<in>{0..<buffer_count this}. size_bytes (requirements this i)) \<le> INT_MAX"

definition planned :: "GreedyMemoryPlanner \<Rightarrow> bool" where
  "planned this \<longleftrightarrow>
     (\<exists>xs. placed this (buffer_count this) xs \<and> sorted_ids this \<and>
        (sizes_fit this \<longrightarrow> ordered this (buffer_count this) xs))"

definition planner_inv :: "GreedyMemoryPlanner \<Rightarrow> bool" where
  "planner_inv this \<longleftrightarrow>
     0 \<le> buffer_count this \<and> buffer_count this \<le> kMaxBufferCount \<and>
     (\<forall>i\<in>{0..<buffer_count this}. int_value (size_bytes (requirements this i))) \<and>
     (need_to_calculate_offsets this \<or> planned this)"

text \<open>
  The planners a client can hold: a fresh one, over any earlier content of its storage,
  and what \<open>AddBuffer\<close>, \<open>GetMaximumMemorySize\<close> and \<open>PrintMemoryPlan\<close> return.
  The arguments of \<open>AddBuffer\<close> have the C++ type \<open>int\<close>, so they are values of
  that type. \<open>GetBufferCount\<close> and \<open>GetOffsetForBuffer\<close> leave the planner as it is.
\<close>

inductive reachable :: "GreedyMemoryPlanner \<Rightarrow> bool" where
  fresh: "reachable (GreedyMemoryPlanner_ctor mem)"
| add: "reachable this \<Longrightarrow> int_value s \<Longrightarrow> int_value f \<Longrightarrow> int_value l \<Longrightarrow>
        reachable (snd (snd (AddBuffer this er s f l)))"
| get_max: "reachable this \<Longrightarrow> GetMaximumMemorySize this = Some (m, this') \<Longrightarrow> reachable this'"
| print: "reachable this \<Longrightarrow> PrintMemoryPlan this er = Some (er', this') \<Longrightarrow> reachable this'"

section \<open>Chains of nodes\<close>

lemma int32_id: "int_value x \<Longrightarrow> int32 x = x"
proof -
  assume "int_value x"
  then have "0 \<le> x + 2147483648" and "x + 2147483648 < 4294967296"
    by (simp_all add: int_value_def INT_MIN_def INT_MAX_def)
  then have "(x + 2147483648) mod 4294967296 = x + 2147483648"
    by (rule mod_pos_pos_trivial)
  then show ?thesis by (simp add: int32_def)
qed

lemma int_valueI: "0 \<le> x \<Longrightarrow> x \<le> INT_MAX \<Longrightarrow> int_value x"
  by (simp add: int_value_def INT_MIN_def)

lemma linked_cong:
  "\<forall>j\<in>set (x # xs). g j = f j \<Longrightarrow> linked g x xs = linked f x xs"
  by (induction xs arbitrary: x) auto

lemma linked_suffix:
  "linked f x (as @ y # bs) \<Longrightarrow> linked f y bs"
  by (induction as arbitrary: x) auto

lemma linked_next:
  "linked f x xs \<Longrightarrow> j \<in> set (x # xs) \<Longrightarrow> f j = -1 \<or> f j \<in> set xs"
  by (induction xs arbitrary: x) auto

lemma linked_insert:
  assumes "linked f x (as @ bs)" and "distinct (x # as @ bs)" and "k \<notin> set (x # as @ bs)"
    and "k \<noteq> -1"
  shows "linked (f(last (x # as) := k, k := (case bs of [] \<Rightarrow> -1 | b # bs' \<Rightarrow> b))) x (as @ k # bs)"
proof -
  define e where "e = (case bs of [] \<Rightarrow> -1 | b # bs' \<Rightarrow> b)"
  have "linked (f(last (x # as) := k, k := e)) x (as @ k # bs)"
    using assms(1-3)
  proof (induction as arbitrary: x)
    case Nil
    define g where "g = f(x := k, k := e)"
    have xk: "x \<noteq> k" using Nil.prems by auto
    then have gx: "g x = k" and gk: "g k = e" by (simp_all add: g_def)
    have "linked g k bs"
    proof (cases bs)
      case Nil
      then show ?thesis using gk by (simp add: e_def)
    next
      case (Cons b bs')
      have "linked f b bs'" and b: "b \<noteq> -1" using Nil.prems Cons by auto
      moreover have "\<forall>j\<in>set (b # bs'). g j = f j" using Nil.prems Cons by (auto simp: g_def)
      ultimately have "linked g b bs'" using linked_cong [of b bs' g f] by blast
      then show ?thesis using gk Cons b by (simp add: e_def)
    qed
    then have "linked g x (k # bs)" using gx \<open>k \<noteq> -1\<close> by simp
    then show ?case by (simp add: g_def del: fun_upd_apply)
  next
    case (Cons a as)
    have 1: "linked f a (as @ bs)" and 2: "f x = a" "a \<noteq> -1" using Cons.prems by auto
    have 3: "distinct (a # as @ bs)" "k \<notin> set (a # as @ bs)" using Cons.prems by auto
    have ih: "linked (f(last (a # as) := k, k := e)) a (as @ k # bs)"
      using Cons.IH [OF 1 3] .
    have "x \<noteq> last (a # as)" using Cons.prems(2) last_in_set [of "a # as"] by auto
    moreover have "x \<noteq> k" using Cons.prems by auto
    ultimately have "(f(last (a # as) := k, k := e)) x = a" using 2 by simp
    then show ?case using ih 2 by (simp del: fun_upd_apply)
  qed
  then show ?thesis by (simp add: e_def del: fun_upd_apply)
qed

section \<open>The loops on a chain\<close>

lemma NextValidEntry_loop_linked:
  "linked (nxt this) x xs \<Longrightarrow>
   NextValidEntry_loop this x f l = Some (find (overlaps this f l) (x # xs))"
proof (induction xs arbitrary: x)
  case Nil
  then show ?case
    by (subst NextValidEntry_loop.simps) (simp add: nxt_def overlaps_def)
next
  case (Cons y ys)
  then have "NextValidEntry_loop this y f l = Some (find (overlaps this f l) (y # ys))"
    and "nxt this x = y" "y \<noteq> -1" by auto
  then show ?case
    by (subst NextValidEntry_loop.simps) (simp add: nxt_def overlaps_def)
qed

lemma NextValidEntry_linked:
  "linked (nxt this) x xs \<Longrightarrow>
   NextValidEntry this (Some x) f l = Some (find (overlaps this f l) xs)"
proof (cases xs)
  case Nil
  assume "linked (nxt this) x xs"
  with Nil show ?thesis by (simp add: NextValidEntry_def nxt_def)
next
  case (Cons y ys)
  assume a: "linked (nxt this) x xs"
  with Cons have "linked (nxt this) y ys" "nxt this x = y" "y \<noteq> -1" by auto
  with NextValidEntry_loop_linked [of this y ys f l] Cons show ?thesis
    by (simp add: NextValidEntry_def nxt_def)
qed

lemma find_SomeD: "find P xs = Some y \<Longrightarrow> \<exists>as bs. xs = as @ y # bs"
  by (auto simp: find_Some_iff intro: id_take_nth_drop)

lemma gap_loop_linked:
  "linked (nxt this) c xs \<Longrightarrow>
   \<exists>c'. gap_loop this (Some c) w f l = Some (Some c') \<and> c' \<in> set (c # xs)"
proof (induction xs arbitrary: c rule: length_induct)
  case (1 xs)
  have nv: "NextValidEntry this (Some c) f l = Some (find (overlaps this f l) xs)"
    using NextValidEntry_linked [OF "1.prems"] .
  show ?case
  proof (cases "find (overlaps this f l) xs")
    case None
    with nv show ?thesis by (subst gap_loop.simps) simp
  next
    case (Some n)
    then obtain as bs where xs: "xs = as @ n # bs" using find_SomeD by metis
    then have ln: "linked (nxt this) n bs" using "1.prems" linked_suffix by metis
    have "length bs < length xs" using xs by simp
    with "1.IH" ln obtain c' where
      c': "gap_loop this (Some n) w f l = Some (Some c')" "c' \<in> set (n # bs)" by blast
    then have "c' \<in> set (c # xs)" using xs by auto
    with c' nv Some show ?thesis
      by (subst gap_loop.simps) (simp add: Let_def)
  qed
qed

lemma gap_loop_null: "gap_loop this None w f l = Some None"
  by (subst gap_loop.simps) (simp add: NextValidEntry_def)

lemma insert_loop_linked:
  assumes "linked (nxt this) c xs" and "k \<notin> set (c # xs)"
  shows "\<exists>as bs. xs = as @ bs
           \<and> (\<forall>j\<in>set as. offset (buffers_sorted_by_offset this j) \<le> off)
           \<and> (case bs of [] \<Rightarrow> True | b # bs' \<Rightarrow> off < offset (buffers_sorted_by_offset this b))
           \<and> insert_loop this c k k off =
               Some (this\<lparr>buffers_sorted_by_offset :=
                 (buffers_sorted_by_offset this)
                   (last (c # as) :=
                      (buffers_sorted_by_offset this (last (c # as)))\<lparr>next_entry_index := k\<rparr>,
                    k := (buffers_sorted_by_offset this k)
                      \<lparr>next_entry_index := (case bs of [] \<Rightarrow> -1 | b # bs' \<Rightarrow> b)\<rparr>)\<rparr>)"
  using assms
proof (induction xs arbitrary: c)
  case Nil
  then have "nxt this c = -1" and "c \<noteq> k" by auto
  then have "insert_loop this c k k off =
      Some (this\<lparr>buffers_sorted_by_offset :=
        (buffers_sorted_by_offset this)
          (c := (buffers_sorted_by_offset this c)\<lparr>next_entry_index := k\<rparr>,
           k := (buffers_sorted_by_offset this k)\<lparr>next_entry_index := -1\<rparr>)\<rparr>)"
    by (subst insert_loop.simps) (simp add: nxt_def Let_def)
  then show ?case
    by (intro exI [of _ "[]"]) (simp del: fun_upd_apply)
next
  case (Cons y ys)
  then have n: "nxt this c = y" "y \<noteq> -1" and ly: "linked (nxt this) y ys"
    and ck: "c \<noteq> k" and ky: "k \<notin> set (y # ys)" by auto
  show ?case
  proof (cases "off < offset (buffers_sorted_by_offset this y)")
    case True
    with n ck have "insert_loop this c k k off =
      Some (this\<lparr>buffers_sorted_by_offset :=
        (buffers_sorted_by_offset this)
          (c := (buffers_sorted_by_offset this c)\<lparr>next_entry_index := k\<rparr>,
           k := (buffers_sorted_by_offset this k)\<lparr>next_entry_index := y\<rparr>)\<rparr>)"
      by (subst insert_loop.simps) (simp add: nxt_def Let_def fun_upd_twist)
    with True show ?thesis
      by (intro exI [of _ "[]"] exI [of _ "y # ys"]) (simp del: fun_upd_apply)
  next
    case False
    with n have rec: "insert_loop this c k k off = insert_loop this y k k off"
      by (subst insert_loop.simps) (simp add: nxt_def Let_def)
    from Cons.IH [OF ly ky] obtain as bs where
      ih: "ys = as @ bs"
        "\<forall>j\<in>set as. offset (buffers_sorted_by_offset this j) \<le> off"
        "case bs of [] \<Rightarrow> True | b # bs' \<Rightarrow> off < offset (buffers_sorted_by_offset this b)"
        "insert_loop this y k k off =
           Some (this\<lparr>buffers_sorted_by_offset :=
             (buffers_sorted_by_offset this)
               (last (y # as) :=
                  (buffers_sorted_by_offset this (last (y # as)))\<lparr>next_entry_index := k\<rparr>,
                k := (buffers_sorted_by_offset this k)
                  \<lparr>next_entry_index := (case bs of [] \<Rightarrow> -1 | b # bs' \<Rightarrow> b)\<rparr>)\<rparr>)"
      by blast
    show ?thesis
      using ih False rec
      by (intro exI [of _ "y # as"] exI [of _ bs]) (simp del: fun_upd_apply)
  qed
qed

lemma insert_loop_fields:
  assumes "linked (nxt this) c xs" and "k \<notin> set (c # xs)"
  shows "\<exists>as bs this'. xs = as @ bs
           \<and> (\<forall>j\<in>set as. offset (buffers_sorted_by_offset this j) \<le> off)
           \<and> (case bs of [] \<Rightarrow> True | b # bs' \<Rightarrow> off < offset (buffers_sorted_by_offset this b))
           \<and> insert_loop this c k k off = Some this'
           \<and> nxt this' = (nxt this)(last (c # as) := k, k := (case bs of [] \<Rightarrow> -1 | b # bs' \<Rightarrow> b))
           \<and> (\<forall>j. offset (buffers_sorted_by_offset this' j) = offset (buffers_sorted_by_offset this j))
           \<and> (\<forall>j. requirements_index (buffers_sorted_by_offset this' j)
                   = requirements_index (buffers_sorted_by_offset this j))
           \<and> this' = this\<lparr>buffers_sorted_by_offset := buffers_sorted_by_offset this'\<rparr>"
proof -
  from insert_loop_linked [OF assms, of off] obtain as bs where
    r: "xs = as @ bs"
       "\<forall>j\<in>set as. offset (buffers_sorted_by_offset this j) \<le> off"
       "case bs of [] \<Rightarrow> True | b # bs' \<Rightarrow> off < offset (buffers_sorted_by_offset this b)"
       "insert_loop this c k k off =
          Some (this\<lparr>buffers_sorted_by_offset :=
            (buffers_sorted_by_offset this)
              (last (c # as) :=
                 (buffers_sorted_by_offset this (last (c # as)))\<lparr>next_entry_index := k\<rparr>,
               k := (buffers_sorted_by_offset this k)
                 \<lparr>next_entry_index := (case bs of [] \<Rightarrow> -1 | b # bs' \<Rightarrow> b)\<rparr>)\<rparr>)"
    by blast
  define e where "e = (case bs of [] \<Rightarrow> -1 | b # bs' \<Rightarrow> b)"
  define la where "la = last (c # as)"
  define pool' where "pool' = (buffers_sorted_by_offset this)
              (la := (buffers_sorted_by_offset this la)\<lparr>next_entry_index := k\<rparr>,
               k := (buffers_sorted_by_offset this k)\<lparr>next_entry_index := e\<rparr>)"
  have res: "insert_loop this c k k off = Some (this\<lparr>buffers_sorted_by_offset := pool'\<rparr>)"
    using r(4) by (simp add: pool'_def e_def la_def)
  have "nxt (this\<lparr>buffers_sorted_by_offset := pool'\<rparr>) = (nxt this)(la := k, k := e)"
    by (rule ext) (simp add: nxt_def pool'_def)
  moreover have "\<forall>j. offset (pool' j) = offset (buffers_sorted_by_offset this j)"
    by (simp add: pool'_def)
  moreover have "\<forall>j. requirements_index (pool' j)
                   = requirements_index (buffers_sorted_by_offset this j)"
    by (simp add: pool'_def)
  ultimately show ?thesis
    using r(1-3) res unfolding e_def la_def
    by (intro exI [of _ as] exI [of _ bs]
          exI [of _ "this\<lparr>buffers_sorted_by_offset := pool'\<rparr>"]) simp
qed

lemma max_size_loop_linked:
  "linked (nxt this) x xs \<Longrightarrow>
   max_size_loop this x m = Some (fold (\<lambda>j m. max m (end_of this j)) (x # xs) m)"
proof (induction xs arbitrary: x m)
  case Nil
  then show ?case
    by (subst max_size_loop.simps) (simp add: nxt_def end_of_def Let_def max_def)
next
  case (Cons y ys)
  then have a: "nxt this x = y" "y \<noteq> -1" "linked (nxt this) y ys" by auto
  from a(1) have "next_entry_index (buffers_sorted_by_offset this x) = y"
    by (simp add: nxt_def)
  with a Cons.IH [of y] show ?case
    by (subst max_size_loop.simps) (simp add: end_of_def Let_def max_def)
qed

lemma fold_max_Max:
  "fold (\<lambda>j m. max m (g j)) xs (m::int) = Max (insert m (g ` set xs))"
proof (induction xs arbitrary: m)
  case Nil
  then show ?case by simp
next
  case (Cons x xs)
  have "Max (insert (max m (g x)) S) = Max (insert m (insert (g x) S))" if "finite S" for S
    using that by (cases "S = {}") (simp_all add: max.assoc)
  from this [of "g ` set xs"] Cons show ?case by simp
qed

lemma entries_from_linked:
  "linked (nxt this) x xs \<Longrightarrow>
   entries_from this x = Some (map (buffers_sorted_by_offset this) (x # xs))"
proof (induction xs arbitrary: x)
  case Nil
  then show ?case by (subst entries_from.simps) (simp add: nxt_def Let_def)
next
  case (Cons y ys)
  then have a: "nxt this x = y" "y \<noteq> -1" "linked (nxt this) y ys" by auto
  from a(1) have "next_entry_index (buffers_sorted_by_offset this x) = y"
    by (simp add: nxt_def)
  with a Cons.IH [of y] show ?case
    by (subst entries_from.simps) (simp add: Let_def)
qed


section \<open>Placing one buffer\<close>

lemma first_candidate:
  assumes "linked (nxt this) 0 xs"
  shows "\<exists>c0. (if DoesEntryOverlapInTime this 0 f l then Some (Some 0)
               else NextValidEntry this (Some 0) f l) = Some c0
            \<and> (case c0 of None \<Rightarrow> True | Some c \<Rightarrow> c \<in> set (0 # xs))"
proof (cases "DoesEntryOverlapInTime this 0 f l")
  case True
  then show ?thesis by simp
next
  case False
  have "NextValidEntry this (Some 0) f l = Some (find (overlaps this f l) xs)"
    using NextValidEntry_linked [OF assms] .
  moreover have "case find (overlaps this f l) xs of None \<Rightarrow> True | Some c \<Rightarrow> c \<in> set (0 # xs)"
    by (auto split: option.splits dest: find_SomeD)
  ultimately show ?thesis using False by simp
qed

lemma gap_candidate:
  assumes "linked (nxt this) 0 xs"
    and "case c0 of None \<Rightarrow> True | Some c \<Rightarrow> c \<in> set (0 # xs)"
  shows "\<exists>c1. gap_loop this c0 w f l = Some c1
            \<and> (case c1 of None \<Rightarrow> True | Some c \<Rightarrow> c \<in> set (0 # xs))"
proof (cases c0)
  case None
  then show ?thesis by (simp add: gap_loop_null)
next
  case (Some c)
  with assms(2) have "c = 0 \<or> c \<in> set xs" by simp
  then obtain as bs where "linked (nxt this) c bs" and "set (c # bs) \<subseteq> set (0 # xs)"
  proof
    assume "c = 0"
    with assms(1) have "linked (nxt this) c xs" "set (c # xs) \<subseteq> set (0 # xs)" by auto
    then show ?thesis using that by blast
  next
    assume "c \<in> set xs"
    then obtain as bs where xs: "xs = as @ c # bs" by (auto simp: in_set_conv_decomp)
    with assms(1) have "linked (nxt this) c bs" using linked_suffix by metis
    moreover have "set (c # bs) \<subseteq> set (0 # xs)" using xs by auto
    ultimately show ?thesis using that by blast
  qed
  with gap_loop_linked [of this c bs w f l] Some show ?thesis by auto
qed

lemma before_insert:
  fixes g g' :: "int \<Rightarrow> int"
  assumes srt: "sorted_wrt (before g) (x # as @ bs)" and x: "g x \<le> v"
    and as: "\<forall>j\<in>set as. g j \<le> v"
    and bs: "case bs of [] \<Rightarrow> True | b # bs' \<Rightarrow> v < g b"
    and k: "g' k = v" and same: "\<forall>j\<in>set (x # as @ bs). g' j = g j"
    and idx: "\<forall>j\<in>set (x # as @ bs). j < k"
  shows "sorted_wrt (before g') (x # as @ k # bs)"
proof -
  have s1: "sorted_wrt (before g) (x # as)" and s2: "sorted_wrt (before g) bs"
    and s3: "\<forall>a\<in>set (x # as). \<forall>b\<in>set bs. before g a b"
    using srt sorted_wrt_append [of "before g" "x # as" bs] by auto
  have eq: "before g' a b = before g a b"
    if "a \<in> set (x # as @ bs)" "b \<in> set (x # as @ bs)" for a b
    using that same by (auto simp: before_def)
  have t1: "sorted_wrt (before g') (x # as)"
  proof (rule sorted_wrt_mono_rel [OF _ s1])
    fix a b assume "a \<in> set (x # as)" "b \<in> set (x # as)" "before g a b"
    then show "before g' a b" using eq [of a b] by auto
  qed
  have t2: "sorted_wrt (before g') bs"
  proof (rule sorted_wrt_mono_rel [OF _ s2])
    fix a b assume "a \<in> set bs" "b \<in> set bs" "before g a b"
    then show "before g' a b" using eq [of a b] by auto
  qed
  have hi: "\<forall>b\<in>set bs. v < g b"
  proof (cases bs)
    case Nil
    then show ?thesis by simp
  next
    case (Cons b bs')
    with bs have vb: "v < g b" by simp
    have "\<forall>c\<in>set bs'. g b \<le> g c" using s2 Cons by (auto simp: before_def)
    with vb Cons show ?thesis by fastforce
  qed
  have kb: "\<forall>b\<in>set bs. before g' k b"
    using hi k same by (simp add: before_def)
  have ak: "\<forall>a\<in>set (x # as). before g' a k"
  proof
    fix a assume a: "a \<in> set (x # as)"
    then have "g a \<le> v" using x as by auto
    moreover have "g' a = g a" using a same by auto
    moreover have "a < k" using a idx by auto
    ultimately show "before g' a k" using k by (auto simp: before_def)
  qed
  have ab: "\<forall>a\<in>set (x # as). \<forall>b\<in>set bs. before g' a b"
    using s3 eq by simp
  have "sorted_wrt (before g') ((x # as) @ k # bs)"
    unfolding sorted_wrt_append using t1 t2 kb ak ab by simp
  then show ?thesis by simp
qed

lemma fits_mono: "fits this n \<Longrightarrow> k \<le> n \<Longrightarrow> fits this k"
proof -
  assume f: "fits this n" and k: "k \<le> n"
  let ?sz = "\<lambda>j. size_bytes (requirements this (buffer_ids_sorted_by_size this j))"
  from f have nn: "\<forall>j\<in>{0..<n}. 0 \<le> ?sz j" and le: "sum ?sz {0..<n} \<le> INT_MAX"
    by (simp_all add: fits_def prefix_size_def)
  have sub: "{0..<k} \<subseteq> {0..<n}" using k by auto
  have "sum ?sz {0..<k} \<le> sum ?sz {0..<n}"
    by (rule sum_mono2) (use sub nn in auto)
  with le nn sub show ?thesis by (auto simp: fits_def prefix_size_def)
qed

lemma fits_cong: "same_input this this' \<Longrightarrow> fits this' k = fits this k"
  by (simp add: same_input_def fits_def prefix_size_def)

lemma place_buffer_placed:
  assumes pl: "placed this k xs"
  shows "\<exists>this' xs'. place_buffer this k = Some this' \<and> placed this' (k + 1) xs'
           \<and> same_input this this'
           \<and> (fits this (k + 1) \<longrightarrow> ordered this k xs \<longrightarrow> ordered this' (k + 1) xs')"
proof -
  from pl have lk: "linked (nxt this) 0 xs" and dist: "distinct (0 # xs)"
    and st: "set (0 # xs) = {0..<k}" and nf: "next_free_entry this = k"
    and off0: "offset (buffers_sorted_by_offset this 0) = 0"
    and ri: "\<forall>j\<in>{0..<k}. requirements_index (buffers_sorted_by_offset this j)
                     = buffer_ids_sorted_by_size this j"
    by (simp_all add: placed_def)
  have "(0::int) \<in> {0..<k}" using st list.set_intros(1) by metis
  then have k1: "1 \<le> k" by simp
  have kn: "k \<notin> set (0 # xs)" by (simp only: st) simp
  define id where "id = buffer_ids_sorted_by_size this k"
  define f where "f = first_time_used (requirements this id)"
  define l where "l = last_time_used (requirements this id)"
  define w where "w = size_bytes (requirements this id)"
  from first_candidate [OF lk, of f l] obtain c0 where
    c0: "(if DoesEntryOverlapInTime this 0 f l then Some (Some 0)
          else NextValidEntry this (Some 0) f l) = Some c0"
        "case c0 of None \<Rightarrow> True | Some c \<Rightarrow> c \<in> set (0 # xs)" by blast
  from gap_candidate [OF lk c0(2), of w f l] obtain c1 where
    c1: "gap_loop this c0 w f l = Some c1"
        "case c1 of None \<Rightarrow> True | Some c \<Rightarrow> c \<in> set (0 # xs)" by blast
  define off where "off = (case c1 of
      Some c \<Rightarrow> int32 (offset (buffers_sorted_by_offset this c)
                + size_bytes (requirements this
                    (requirements_index (buffers_sorted_by_offset this c))))
    | None \<Rightarrow> 0)"
  define this1 where "this1 = this
     \<lparr>buffer_offsets := (buffer_offsets this)(id := off),
      buffers_sorted_by_offset := (buffers_sorted_by_offset this)
         (k := (buffers_sorted_by_offset this k)\<lparr>offset := off, requirements_index := id\<rparr>),
      next_free_entry := k + 1\<rparr>"
  have pb: "place_buffer this k = insert_loop this1 0 k k off"
    using c0(1) c1(1) nf unfolding place_buffer_def Let_def id_def [symmetric]
      f_def [symmetric] l_def [symmetric] w_def [symmetric]
    by (simp add: this1_def off_def id_def)
  have nxt1: "nxt this1 = nxt this"
    by (rule ext) (simp add: nxt_def this1_def)
  have o1: "\<And>j. offset (buffers_sorted_by_offset this1 j)
              = (if j = k then off else offset (buffers_sorted_by_offset this j))"
    and r1: "\<And>j. requirements_index (buffers_sorted_by_offset this1 j)
              = (if j = k then id else requirements_index (buffers_sorted_by_offset this j))"
    by (simp_all add: this1_def)
  have lk1: "linked (nxt this1) 0 xs" using lk nxt1 by simp
  from insert_loop_fields [OF lk1 kn, of off] obtain as bs this' where
    r: "xs = as @ bs"
       "\<forall>j\<in>set as. offset (buffers_sorted_by_offset this1 j) \<le> off"
       "case bs of [] \<Rightarrow> True | b # bs' \<Rightarrow> off < offset (buffers_sorted_by_offset this1 b)"
       "insert_loop this1 0 k k off = Some this'"
       "nxt this' = (nxt this1)(last (0 # as) := k, k := (case bs of [] \<Rightarrow> -1 | b # bs' \<Rightarrow> b))"
       "\<forall>j. offset (buffers_sorted_by_offset this' j) = offset (buffers_sorted_by_offset this1 j)"
       "\<forall>j. requirements_index (buffers_sorted_by_offset this' j)
              = requirements_index (buffers_sorted_by_offset this1 j)"
       "this' = this1\<lparr>buffers_sorted_by_offset := buffers_sorted_by_offset this'\<rparr>"
    by blast
  have fr: "requirements this' = requirements this" "buffer_count this' = buffer_count this"
    "buffer_ids_sorted_by_size this' = buffer_ids_sorted_by_size this"
    "need_to_calculate_offsets this' = need_to_calculate_offsets this"
    "next_free_entry this' = k + 1"
    by (subst r(8), simp add: this1_def)+
  have "k \<noteq> -1" using k1 by simp
  have l': "linked (nxt this') 0 (as @ k # bs)"
    using linked_insert [of "nxt this" 0 as bs k] lk dist kn \<open>k \<noteq> -1\<close> r(1) r(5) nxt1
    by simp
  have d': "distinct (0 # as @ k # bs)" using dist kn r(1) by auto
  have s': "set (0 # as @ k # bs) = {0..<k + 1}"
  proof -
    have a: "set (0 # as @ k # bs) = insert k (set (0 # xs))" using r(1) by auto
    have b: "{0..<k + 1} = insert k {0..<k}" using k1 by auto
    show ?thesis by (simp only: a b st)
  qed
  have o': "offset (buffers_sorted_by_offset this' 0) = 0"
    using r(6) o1 off0 k1 by simp
  have ri': "\<forall>j\<in>{0..<k + 1}. requirements_index (buffers_sorted_by_offset this' j)
                     = buffer_ids_sorted_by_size this' j"
    using r(7) r1 ri fr(3) by (auto simp: id_def)
  have placed': "placed this' (k + 1) (as @ k # bs)"
    using l' d' s' fr(5) o' ri' by (simp add: placed_def)
  have same: "same_input this this'" using fr by (simp add: same_input_def)
  have ord: "ordered this' (k + 1) (as @ k # bs)"
    if ft: "fits this (k + 1)" and o: "ordered this k xs"
  proof -
    let ?sz = "\<lambda>j. size_bytes (requirements this (buffer_ids_sorted_by_size this j))"
    have ks: "{0..<k + 1} = insert k {0..<k}" using k1 by auto
    from ft have nn: "\<forall>j\<in>{0..<k + 1}. 0 \<le> ?sz j" and pm: "prefix_size this (k + 1) \<le> INT_MAX"
      by (simp_all add: fits_def)
    have ps: "prefix_size this (k + 1) = prefix_size this k + ?sz k"
      unfolding prefix_size_def ks by simp
    have szk: "0 \<le> ?sz k" using nn ks by blast
    have nnk: "\<forall>j\<in>{0..<k}. 0 \<le> ?sz j" using nn ks by blast
    from o r(1) have srt: "sorted_wrt (before (offs this)) (0 # as @ bs)"
      and bd: "\<forall>j\<in>{0..<k}. 0 \<le> offs this j \<and> offs this j + ?sz j \<le> prefix_size this k"
      by (simp_all add: ordered_def)
    have p0: "0 \<le> prefix_size this k"
      unfolding prefix_size_def using nnk by (intro sum_nonneg) blast
    have offb: "0 \<le> off \<and> off \<le> prefix_size this k"
    proof (cases c1)
      case None
      then show ?thesis using p0 by (simp add: off_def)
    next
      case (Some c)
      with c1(2) have c: "c \<in> set (0 # xs)" by simp
      then have ck: "c \<in> {0..<k}" by (simp only: st)
      define e where "e = offs this c + ?sz c"
      from bd ck nnk have e: "0 \<le> e" "e \<le> prefix_size this k"
        unfolding e_def by (simp add: add_nonneg_nonneg, blast)
      then have "e \<le> INT_MAX" using ps pm szk by simp
      with e(1) have "int32 e = e" by (intro int32_id int_valueI)
      moreover have "off = int32 e"
        using Some ri ck by (simp add: off_def e_def offs_def)
      ultimately show ?thesis using e by simp
    qed
    have g1: "offs this' j = (if j = k then off else offs this j)" for j
      using r(6) o1 by (simp add: offs_def)
    have sz': "size_bytes (requirements this' (buffer_ids_sorted_by_size this' j)) = ?sz j" for j
      by (simp add: fr)
    have ps': "prefix_size this' (k + 1) = prefix_size this (k + 1)"
      by (simp add: prefix_size_def fr)
    have bd': "\<forall>j\<in>{0..<k + 1}. 0 \<le> offs this' j \<and>
        offs this' j + size_bytes (requirements this' (buffer_ids_sorted_by_size this' j))
          \<le> prefix_size this' (k + 1)"
    proof
      fix j assume j: "j \<in> {0..<k + 1}"
      show "0 \<le> offs this' j \<and>
        offs this' j + size_bytes (requirements this' (buffer_ids_sorted_by_size this' j))
          \<le> prefix_size this' (k + 1)"
      proof (cases "j = k")
        case True
        then show ?thesis using offb ps by (simp add: g1 sz' ps')
      next
        case False
        with j have "j \<in> {0..<k}" by simp
        with bd have "0 \<le> offs this j" "offs this j + ?sz j \<le> prefix_size this k" by blast+
        then show ?thesis using False ps szk by (simp add: g1 sz' ps')
      qed
    qed
    have x: "offs this 0 \<le> off" using off0 offb by (simp add: offs_def)
    have o1s: "offs this' j = offs this j" if "j \<in> set (0 # xs)" for j
    proof -
      from that kn have "j \<noteq> k" by blast
      then show ?thesis by (simp add: g1)
    qed
    have asb: "\<forall>j\<in>set as. offs this j \<le> off"
    proof
      fix j assume j: "j \<in> set as"
      then have "j \<in> set (0 # xs)" using r(1) by simp
      with kn have "j \<noteq> k" by blast
      moreover from r(2) j have "offset (buffers_sorted_by_offset this1 j) \<le> off" by blast
      ultimately show "offs this j \<le> off" by (simp add: o1 offs_def)
    qed
    have bsb: "case bs of [] \<Rightarrow> True | b # bs' \<Rightarrow> off < offs this b"
    proof (cases bs)
      case Nil
      then show ?thesis by simp
    next
      case (Cons b bs')
      then have "b \<in> set (0 # xs)" using r(1) by simp
      with kn have "b \<noteq> k" by blast
      with r(3) Cons show ?thesis by (simp add: o1 offs_def)
    qed
    have gk: "offs this' k = off" by (simp add: g1)
    have sm: "\<forall>j\<in>set (0 # as @ bs). offs this' j = offs this j"
      using o1s r(1) by simp
    have ix: "\<forall>j\<in>set (0 # as @ bs). j < k"
    proof
      fix j assume "j \<in> set (0 # as @ bs)"
      then have "j \<in> set (0 # xs)" using r(1) by simp
      then have "j \<in> {0..<k}" by (simp only: st)
      then show "j < k" by simp
    qed
    have "sorted_wrt (before (offs this')) (0 # as @ k # bs)"
      using before_insert [of "offs this" 0 as bs off "offs this'" k, OF srt x asb bsb gk sm ix] .
    with bd' show ?thesis by (simp only: ordered_def)
  qed
  show ?thesis
    using pb r(4) placed' same ord
    by (intro exI [of _ this'] exI [of _ "as @ k # bs"]) simp
qed

lemma place_loop_placed:
  assumes "placed this i xs" and "i \<le> buffer_count this"
  shows "\<exists>this' xs'. place_loop this i = Some this' \<and> placed this' (buffer_count this) xs'
           \<and> same_input this this'
           \<and> (fits this (buffer_count this) \<longrightarrow> ordered this i xs
                \<longrightarrow> ordered this' (buffer_count this) xs')"
  using assms
proof (induction "nat (buffer_count this - i)" arbitrary: this i xs)
  case 0
  then have "i = buffer_count this" by simp
  then have "place_loop this i = Some this" by (subst place_loop.simps) simp
  with 0 \<open>i = buffer_count this\<close> show ?case
    by (intro exI [of _ this] exI [of _ xs]) (simp add: same_input_def)
next
  case (Suc m)
  then have lt: "i < buffer_count this" by simp
  from place_buffer_placed [OF Suc.prems(1)] obtain this1 xs1 where
    s: "place_buffer this i = Some this1" "placed this1 (i + 1) xs1" "same_input this this1"
       "fits this (i + 1) \<longrightarrow> ordered this i xs \<longrightarrow> ordered this1 (i + 1) xs1"
    by blast
  have c: "buffer_count this1 = buffer_count this" using s(3) by (simp add: same_input_def)
  have m: "m = nat (buffer_count this1 - (i + 1))" using Suc.hyps(2) c by simp
  have le: "i + 1 \<le> buffer_count this1" using lt c by simp
  from Suc.hyps(1) [OF m s(2) le] obtain this' xs' where
    r: "place_loop this1 (i + 1) = Some this'" "placed this' (buffer_count this1) xs'"
       "same_input this1 this'"
       "fits this1 (buffer_count this1) \<longrightarrow> ordered this1 (i + 1) xs1
          \<longrightarrow> ordered this' (buffer_count this1) xs'"
    by blast
  have pl: "place_loop this i = Some this'"
    using lt s(1) r(1) by (subst place_loop.simps) simp
  have same: "same_input this this'" using s(3) r(3) by (simp add: same_input_def)
  have ord: "ordered this' (buffer_count this) xs'"
    if ft: "fits this (buffer_count this)" and o: "ordered this i xs"
  proof -
    have "fits this (i + 1)" using fits_mono [OF ft] lt by simp
    with s(4) o have "ordered this1 (i + 1) xs1" by blast
    moreover have "fits this1 (buffer_count this1)"
      using ft fits_cong [OF s(3)] c by simp
    ultimately show ?thesis using r(4) c by simp
  qed
  show ?case
    using pl r(2) c same ord
    by (intro exI [of _ this'] exI [of _ xs']) simp
qed

section \<open>The size order\<close>

lemma fill_sort_arrays:
  "fold (\<lambda>i this.
           this\<lparr>buffer_sizes_sorted_by_size :=
                  (buffer_sizes_sorted_by_size this)(i := size_bytes (requirements this i)),
                buffer_ids_sorted_by_size := (buffer_ids_sorted_by_size this)(i := i)\<rparr>)
     xs (this :: GreedyMemoryPlanner) =
   this\<lparr>buffer_sizes_sorted_by_size :=
          (\<lambda>j. if j \<in> set xs then size_bytes (requirements this j)
               else buffer_sizes_sorted_by_size this j),
        buffer_ids_sorted_by_size :=
          (\<lambda>j. if j \<in> set xs then j else buffer_ids_sorted_by_size this j)\<rparr>"
proof -
  define F where "F = (\<lambda>i (this :: GreedyMemoryPlanner).
           this\<lparr>buffer_sizes_sorted_by_size :=
                  (buffer_sizes_sorted_by_size this)(i := size_bytes (requirements this i)),
                buffer_ids_sorted_by_size := (buffer_ids_sorted_by_size this)(i := i)\<rparr>)"
  have F: "\<And>i this. F i this = this\<lparr>buffer_sizes_sorted_by_size :=
                  (buffer_sizes_sorted_by_size this)(i := size_bytes (requirements this i)),
                buffer_ids_sorted_by_size := (buffer_ids_sorted_by_size this)(i := i)\<rparr>"
    by (simp add: F_def)
  have "fold F xs this =
     this\<lparr>buffer_sizes_sorted_by_size :=
          (\<lambda>j. if j \<in> set xs then size_bytes (requirements this j)
               else buffer_sizes_sorted_by_size this j),
        buffer_ids_sorted_by_size :=
          (\<lambda>j. if j \<in> set xs then j else buffer_ids_sorted_by_size this j)\<rparr>"
  proof (induction xs arbitrary: this)
    case Nil
    then show ?case by simp
  next
    case (Cons x xs)
    have 1: "(\<lambda>j. if j \<in> set xs then size_bytes (requirements this j)
             else ((buffer_sizes_sorted_by_size this)(x := size_bytes (requirements this x))) j)
        = (\<lambda>j. if j \<in> set (x # xs) then size_bytes (requirements this j)
               else buffer_sizes_sorted_by_size this j)"
      by (rule ext) simp
    have 2: "(\<lambda>j. if j \<in> set xs then j else ((buffer_ids_sorted_by_size this)(x := x)) j)
        = (\<lambda>j. if j \<in> set (x # xs) then j else buffer_ids_sorted_by_size this j)"
      by (rule ext) simp
    have "fold F (x # xs) this = fold F xs (F x this)" by simp
    also have "\<dots> = (F x this)\<lparr>buffer_sizes_sorted_by_size :=
          (\<lambda>j. if j \<in> set xs then size_bytes (requirements (F x this) j)
               else buffer_sizes_sorted_by_size (F x this) j),
        buffer_ids_sorted_by_size :=
          (\<lambda>j. if j \<in> set xs then j else buffer_ids_sorted_by_size (F x this) j)\<rparr>"
      by (rule Cons.IH)
    also have "\<dots> = this\<lparr>buffer_sizes_sorted_by_size :=
          (\<lambda>j. if j \<in> set xs then size_bytes (requirements this j)
             else ((buffer_sizes_sorted_by_size this)(x := size_bytes (requirements this x))) j),
        buffer_ids_sorted_by_size :=
          (\<lambda>j. if j \<in> set xs then j else ((buffer_ids_sorted_by_size this)(x := x)) j)\<rparr>"
      by (simp add: F del: fun_upd_apply cong: if_cong)
    finally show ?case by (simp only: 1 2)
  qed
  then show ?thesis by (simp only: F_def)
qed

lemma ReverseSortInPlace_ids:
  fixes sz :: "int \<Rightarrow> int"
  assumes n: "0 < n"
    and vals: "\<forall>j\<in>{0..<n}. values j = sz j" and ids: "\<forall>j\<in>{0..<n}. ids j = j"
  defines "ids' \<equiv> snd (ReverseSortInPlace values ids n)"
  shows "ids' ` {0..<n} = {0..<n}" and "inj_on ids' {0..<n}"
    and "\<forall>i\<in>{0..<n}. sz i \<le> sz (ids' 0)"
proof -
  define orig where "orig = map (\<lambda>j. (sz j, j)) [0..n - 1]"
  define ps where "ps = sort_key (\<lambda>p. - fst p) orig"
  have o: "map (\<lambda>j. (values j, ids j)) [0..n - 1] = orig"
    using vals ids by (simp add: orig_def)
  have ids': "ids' j = snd (ps ! nat j)" if "j \<in> {0..<n}" for j
    using that by (simp add: ids'_def ReverseSortInPlace_def Let_def o ps_def)
  have len: "length ps = nat n" by (simp add: ps_def orig_def)
  have setps: "set ps = (\<lambda>j. (sz j, j)) ` {0..<n}"
    by (auto simp: ps_def orig_def)
  have "distinct orig" by (simp add: orig_def distinct_map inj_on_def)
  then have dps: "distinct ps" by (simp add: ps_def)
  have "inj_on snd (set ps)" by (auto simp: setps inj_on_def)
  with dps have dl: "distinct (map snd ps)" by (simp add: distinct_map)
  have sl: "set (map snd ps) = {0..<n}" by (auto simp: setps image_image)
  have idx: "ids' j = map snd ps ! nat j" if "j \<in> {0..<n}" for j
    using that ids' [OF that] len by simp
  show "ids' ` {0..<n} = {0..<n}"
  proof -
    have "ids' ` {0..<n} = (\<lambda>j. map snd ps ! nat j) ` {0..<n}" using idx by (intro image_cong) auto
    also have "\<dots> = (\<lambda>i. map snd ps ! i) ` {..<nat n}"
    proof (intro equalityI subsetI)
      fix y assume "y \<in> (\<lambda>j. map snd ps ! nat j) ` {0..<n}"
      then obtain j where "j \<in> {0..<n}" "y = map snd ps ! nat j" by blast
      then show "y \<in> (\<lambda>i. map snd ps ! i) ` {..<nat n}" by (intro image_eqI [of _ _ "nat j"]) auto
    next
      fix y assume "y \<in> (\<lambda>i. map snd ps ! i) ` {..<nat n}"
      then obtain i where "i < nat n" "y = map snd ps ! i" by blast
      then show "y \<in> (\<lambda>j. map snd ps ! nat j) ` {0..<n}" by (intro image_eqI [of _ _ "int i"]) auto
    qed
    also have "\<dots> = set (map snd ps)"
    proof -
      define L where "L = map snd ps"
      have "length L = nat n" using len by (simp add: L_def)
      then have "(\<lambda>i. L ! i) ` {..<nat n} = set L" by (auto simp: set_conv_nth)
      then show ?thesis by (simp only: L_def)
    qed
    finally show ?thesis using sl by simp
  qed
  show "inj_on ids' {0..<n}"
  proof (rule inj_onI)
    fix a b assume a: "a \<in> {0..<n}" and b: "b \<in> {0..<n}" and e: "ids' a = ids' b"
    then have "map snd ps ! nat a = map snd ps ! nat b" using idx by simp
    moreover have "nat a < length (map snd ps)" "nat b < length (map snd ps)"
      using a b len by auto
    ultimately have "nat a = nat b" using dl nth_eq_iff_index_eq by blast
    then have "int (nat a) = int (nat b)" by simp
    then show "a = b" using a b by simp
  qed
  show "\<forall>i\<in>{0..<n}. sz i \<le> sz (ids' 0)"
  proof
    fix i assume i: "i \<in> {0..<n}"
    have ne: "ps \<noteq> []" using len n by auto
    then have h: "ps ! 0 \<in> set ps" by simp
    then obtain j0 where j0: "ps ! 0 = (sz j0, j0)" using setps by auto
    have "ids' 0 = j0" using ids' [of 0] n j0 by simp
    have "sorted (map (\<lambda>p. - fst p) ps)" by (simp add: ps_def)
    moreover have "(sz i, i) \<in> set ps" using i setps by blast
    ultimately have "- fst (ps ! 0) \<le> - fst (sz i, i)"
      using ne by (cases ps) auto
    then show "sz i \<le> sz (ids' 0)" using j0 \<open>ids' 0 = j0\<close> by simp
  qed
qed

lemma sorted_ids_cong:
  "same_input this this' \<Longrightarrow> sorted_ids this \<Longrightarrow> sorted_ids this'"
  by (simp add: same_input_def sorted_ids_def)

section \<open>The layout pass\<close>

lemma layout_planned:
  assumes d: "need_to_calculate_offsets this" and n: "0 < buffer_count this"
  shows "\<exists>this' xs. CalculateOffsetsIfNeeded this = Some this'
           \<and> placed this' (buffer_count this) xs \<and> sorted_ids this'
           \<and> requirements this' = requirements this
           \<and> buffer_count this' = buffer_count this
           \<and> \<not> need_to_calculate_offsets this'
           \<and> (sizes_fit this \<longrightarrow> ordered this' (buffer_count this) xs)"
proof -
  define this1 where "this1 = fold (\<lambda>i this.
                     this\<lparr>buffer_sizes_sorted_by_size :=
                            (buffer_sizes_sorted_by_size this)(i := size_bytes (requirements this i)),
                          buffer_ids_sorted_by_size :=
                            (buffer_ids_sorted_by_size this)(i := i)\<rparr>)
                     [0..buffer_count this - 1] (this\<lparr>need_to_calculate_offsets := False\<rparr>)"
  define sa where "sa = ReverseSortInPlace (buffer_sizes_sorted_by_size this1)
                              (buffer_ids_sorted_by_size this1) (buffer_count this)"
  define this3 where "this3 = this1
     \<lparr>buffer_sizes_sorted_by_size := fst sa, buffer_ids_sorted_by_size := snd sa,
      buffers_sorted_by_offset := (buffers_sorted_by_offset this1)
        (0 := \<lparr>offset = 0, requirements_index = snd sa 0, next_entry_index = -1\<rparr>),
      next_free_entry := 1\<rparr>"
  have t1: "requirements this1 = requirements this" "buffer_count this1 = buffer_count this"
    "\<not> need_to_calculate_offsets this1"
    "\<forall>j\<in>{0..<buffer_count this}. buffer_sizes_sorted_by_size this1 j = size_bytes (requirements this j)"
    "\<forall>j\<in>{0..<buffer_count this}. buffer_ids_sorted_by_size this1 j = j"
    unfolding this1_def fill_sort_arrays by simp_all
  have calc: "CalculateOffsetsIfNeeded this = place_loop this3 1"
    using d n t1(2)
    by (simp add: CalculateOffsetsIfNeeded_def Let_def this3_def sa_def this1_def [symmetric])
  have t3: "requirements this3 = requirements this" "buffer_count this3 = buffer_count this"
    "\<not> need_to_calculate_offsets this3" "buffer_ids_sorted_by_size this3 = snd sa"
    using t1 by (simp_all add: this3_def)
  have one: "{0..<1::int} = {0}" by auto
  have p3: "placed this3 1 []"
    by (simp add: placed_def nxt_def this3_def one)
  have o3: "ordered this3 1 []"
    by (simp add: ordered_def prefix_size_def one offs_def this3_def)
  from ReverseSortInPlace_ids [OF n t1(4) t1(5)]
  have si: "sorted_ids this3"
    unfolding sorted_ids_def t3 sa_def by blast
  have le: "1 \<le> buffer_count this3" using n t3(2) by simp
  from place_loop_placed [OF p3 le] obtain this' xs where
    r: "place_loop this3 1 = Some this'" "placed this' (buffer_count this3) xs"
       "same_input this3 this'"
       "fits this3 (buffer_count this3) \<longrightarrow> ordered this3 1 []
          \<longrightarrow> ordered this' (buffer_count this3) xs"
    by blast
  have ord: "ordered this' (buffer_count this) xs" if sf: "sizes_fit this"
  proof -
    let ?n = "buffer_count this"
    let ?ids = "buffer_ids_sorted_by_size this3"
    from si have img: "?ids ` {0..<?n} = {0..<?n}" and inj: "inj_on ?ids {0..<?n}"
      unfolding sorted_ids_def t3(2) by blast+
    then have bij: "bij_betw ?ids {0..<?n} {0..<?n}" by (simp add: bij_betw_def)
    from sf have nn: "\<forall>i\<in>{0..<?n}. 0 \<le> size_bytes (requirements this i)"
      and le: "(\<Sum>i\<in>{0..<?n}. size_bytes (requirements this i)) \<le> INT_MAX"
      by (simp_all add: sizes_fit_def)
    have "\<forall>j\<in>{0..<?n}. 0 \<le> size_bytes (requirements this (?ids j))"
      using nn img by blast
    moreover have "(\<Sum>j\<in>{0..<?n}. size_bytes (requirements this (?ids j)))
                   = (\<Sum>i\<in>{0..<?n}. size_bytes (requirements this i))"
      by (rule sum.reindex_bij_betw [OF bij])
    ultimately have "fits this3 (buffer_count this3)"
      using le by (simp add: fits_def prefix_size_def t3(1,2))
    with r(4) o3 show ?thesis by (simp add: t3(2))
  qed
  show ?thesis
    using calc r(1) r(2) r(3) t3(1-3) sorted_ids_cong [OF r(3) si] ord
    by (intro exI [of _ this'] exI [of _ xs]) (simp add: same_input_def)
qed

lemma planned_positive: "planned this \<Longrightarrow> 0 < buffer_count this"
proof -
  assume "planned this"
  then obtain xs where "set (0 # xs) = {0..<buffer_count this}"
    by (auto simp: planned_def placed_def)
  then have "(0::int) \<in> {0..<buffer_count this}" using list.set_intros(1) by metis
  then show ?thesis by simp
qed

lemma layout_inv:
  assumes "planner_inv this"
  shows "\<exists>this'. CalculateOffsetsIfNeeded this = Some this' \<and> planner_inv this'
           \<and> requirements this' = requirements this
           \<and> buffer_count this' = buffer_count this
           \<and> (0 < buffer_count this \<longrightarrow> \<not> need_to_calculate_offsets this' \<and> planned this')
           \<and> (\<not> need_to_calculate_offsets this \<or> buffer_count this = 0 \<longrightarrow> this' = this)
           \<and> CalculateOffsetsIfNeeded this' = Some this'"
proof (cases "\<not> need_to_calculate_offsets this \<or> buffer_count this = 0")
  case True
  then have "CalculateOffsetsIfNeeded this = Some this"
    by (simp add: CalculateOffsetsIfNeeded_def)
  with True assms show ?thesis
    by (intro exI [of _ this]) (auto simp: planner_inv_def)
next
  case False
  with assms have d: "need_to_calculate_offsets this" and n: "0 < buffer_count this"
    by (auto simp: planner_inv_def)
  from layout_planned [OF d n] obtain this' xs where
    r: "CalculateOffsetsIfNeeded this = Some this'" "placed this' (buffer_count this) xs"
       "sorted_ids this'" "requirements this' = requirements this"
       "buffer_count this' = buffer_count this" "\<not> need_to_calculate_offsets this'"
       "sizes_fit this \<longrightarrow> ordered this' (buffer_count this) xs"
    by blast
  have sf: "sizes_fit this' = sizes_fit this" by (simp add: sizes_fit_def r(4) r(5))
  have p: "planned this'"
    unfolding planned_def sf r(5) using r(2) r(3) r(7) by blast
  have "CalculateOffsetsIfNeeded this' = Some this'"
    using r(6) by (simp add: CalculateOffsetsIfNeeded_def)
  with r p assms False show ?thesis
    by (intro exI [of _ this']) (simp add: planner_inv_def)
qed

lemma AddBuffer_inv:
  "planner_inv this \<Longrightarrow> int_value s \<Longrightarrow> planner_inv (snd (snd (AddBuffer this er s f l)))"
  by (simp add: planner_inv_def AddBuffer_def Let_def)

lemma GetMaximumMemorySize_layout:
  "GetMaximumMemorySize this = Some (m, this') \<Longrightarrow> CalculateOffsetsIfNeeded this = Some this'"
  by (auto simp: GetMaximumMemorySize_def split: bind_splits if_splits)

lemma PrintMemoryPlan_layout:
  "PrintMemoryPlan this er = Some (er', this') \<Longrightarrow> CalculateOffsetsIfNeeded this = Some this'"
  by (auto simp: PrintMemoryPlan_def split: bind_splits prod.splits if_splits)

lemma reachable_inv: "reachable this \<Longrightarrow> planner_inv this"
proof (induction rule: reachable.induct)
  case (fresh mem)
  then show ?case
    by (simp add: planner_inv_def GreedyMemoryPlanner_ctor_def kMaxBufferCount_def)
next
  case (add this er s f l)
  then show ?case by (simp add: AddBuffer_inv)
next
  case (get_max this m this')
  then show ?case using layout_inv GetMaximumMemorySize_layout by fastforce
next
  case (print this er er' this')
  then show ?case using layout_inv PrintMemoryPlan_layout by fastforce
qed

lemma reachable_add_buffers:
  "reachable this \<Longrightarrow>
   list_all (\<lambda>(s, f, l). int_value s \<and> int_value f \<and> int_value l) bs \<Longrightarrow>
   reachable (add_buffers this bs)"
proof (induction bs arbitrary: this)
  case Nil
  then show ?case by simp
next
  case (Cons b bs)
  obtain s f l where b: "b = (s, f, l)" by (cases b)
  with Cons.prems have "int_value s" "int_value f" "int_value l"
    and rest: "list_all (\<lambda>(s, f, l). int_value s \<and> int_value f \<and> int_value l) bs" by simp_all
  with Cons.prems(1) have "reachable (snd (snd (AddBuffer this [] s f l)))"
    by (intro reachable.add)
  from Cons.IH [OF this rest] show ?case using b by simp
qed

lemma small_int_value: "- 2147483648 \<le> x \<Longrightarrow> x \<le> 2147483647 \<Longrightarrow> int_value x"
  by (simp add: int_value_def INT_MIN_def INT_MAX_def)

lemma buffer_count_add_buffers:
  "buffer_count this \<le> kMaxBufferCount \<Longrightarrow>
   buffer_count (add_buffers this bs) = min kMaxBufferCount (buffer_count this + int (length bs))"
proof (induction bs arbitrary: this)
  case Nil
  then show ?case by simp
next
  case (Cons b bs)
  obtain s f l where b: "b = (s, f, l)" by (cases b)
  let ?p = "snd (snd (AddBuffer this [] s f l))"
  have c: "buffer_count ?p = min kMaxBufferCount (buffer_count this + 1)"
    using Cons.prems by (simp add: AddBuffer_def Let_def)
  then have "buffer_count ?p \<le> kMaxBufferCount" by simp
  from Cons.IH [OF this] c show ?case using b by (simp add: min_def)
qed

text \<open>What the walk of \<open>GetMaximumMemorySize\<close> computes on a planned state.\<close>

lemma planned_max:
  assumes "planned this"
  shows "\<exists>xs. placed this (buffer_count this) xs
           \<and> max_size_loop this 0 0 = Some (Max (insert 0 (end_of this ` {0..<buffer_count this})))
           \<and> entries_from this 0 = Some (map (buffers_sorted_by_offset this) (0 # xs))"
proof -
  from assms obtain xs where p: "placed this (buffer_count this) xs"
    by (auto simp: planned_def)
  then have l: "linked (nxt this) 0 xs" and s: "set (0 # xs) = {0..<buffer_count this}"
    by (simp_all add: placed_def)
  have "max_size_loop this 0 0 = Some (Max (insert 0 (end_of this ` set (0 # xs))))"
    using max_size_loop_linked [OF l, of 0] by (simp only: fold_max_Max)
  then show ?thesis using p entries_from_linked [OF l] by (simp only: s) blast
qed

lemma GetMaximumMemorySize_reachable:
  assumes "planner_inv this"
  shows "\<exists>this'. CalculateOffsetsIfNeeded this = Some this' \<and> planner_inv this'
           \<and> requirements this' = requirements this
           \<and> buffer_count this' = buffer_count this
           \<and> (0 < buffer_count this \<longrightarrow> planned this')
           \<and> CalculateOffsetsIfNeeded this' = Some this'
           \<and> GetMaximumMemorySize this =
                Some (if buffer_count this = 0 then 0
                      else Max (insert 0 (end_of this' ` {0..<buffer_count this})), this')"
proof -
  from layout_inv [OF assms] obtain this' where
    r: "CalculateOffsetsIfNeeded this = Some this'" "planner_inv this'"
       "requirements this' = requirements this" "buffer_count this' = buffer_count this"
       "0 < buffer_count this \<longrightarrow> \<not> need_to_calculate_offsets this' \<and> planned this'"
       "CalculateOffsetsIfNeeded this' = Some this'"
    by blast
  have "GetMaximumMemorySize this =
          Some (if buffer_count this = 0 then 0
                else Max (insert 0 (end_of this' ` {0..<buffer_count this})), this')"
  proof (cases "buffer_count this = 0")
    case True
    with r show ?thesis by (simp add: GetMaximumMemorySize_def)
  next
    case False
    with assms have "0 < buffer_count this" by (simp add: planner_inv_def)
    with r(5) have "planned this'" by simp
    from planned_max [OF this] r(4)
    have "max_size_loop this' 0 0 = Some (Max (insert 0 (end_of this' ` {0..<buffer_count this})))"
      by auto
    with False r show ?thesis by (simp add: GetMaximumMemorySize_def)
  qed
  with r show ?thesis by (intro exI [of _ this']) simp
qed

lemma planned_head:
  assumes "planned this"
    and "\<forall>i\<in>{0..<buffer_count this}. int_value (size_bytes (requirements this i))"
  shows "end_of this 0 = size_bytes (requirements this (buffer_ids_sorted_by_size this 0))"
    and "buffer_ids_sorted_by_size this 0 \<in> {0..<buffer_count this}"
    and "\<forall>i\<in>{0..<buffer_count this}. size_bytes (requirements this i) \<le> end_of this 0"
proof -
  from assms obtain xs where p: "placed this (buffer_count this) xs" and s: "sorted_ids this"
    by (auto simp: planned_def)
  have n: "(0::int) \<in> {0..<buffer_count this}" using planned_positive [OF assms(1)] by simp
  from s n show i0: "buffer_ids_sorted_by_size this 0 \<in> {0..<buffer_count this}"
    unfolding sorted_ids_def by blast
  with assms(2) have "int_value (size_bytes (requirements this (buffer_ids_sorted_by_size this 0)))"
    by blast
  then have "int32 (size_bytes (requirements this (buffer_ids_sorted_by_size this 0)))
             = size_bytes (requirements this (buffer_ids_sorted_by_size this 0))"
    by (rule int32_id)
  with n p show e: "end_of this 0 = size_bytes (requirements this (buffer_ids_sorted_by_size this 0))"
    by (simp add: placed_def end_of_def)
  from s show "\<forall>i\<in>{0..<buffer_count this}. size_bytes (requirements this i) \<le> end_of this 0"
    unfolding sorted_ids_def e by blast
qed

text \<open>
  On a planned state every index the nodes hold lies in \<open>[0, buffer_count)\<close>, and
  \<open>buffer_count\<close> is at most \<open>kMaxBufferCount\<close> on every planner a client can
  hold: the walks read inside the arrays of the C++ object.
\<close>

lemma planned_in_range:
  assumes "planned this"
  shows "\<exists>es. entries_from this 0 = Some es \<and>
           (\<forall>e\<in>set es. requirements_index e \<in> {0..<buffer_count this} \<and>
              (next_entry_index e = -1 \<or> next_entry_index e \<in> {0..<buffer_count this}))"
proof -
  from assms obtain xs where p: "placed this (buffer_count this) xs" and s: "sorted_ids this"
    by (auto simp: planned_def)
  from p have lk: "linked (nxt this) 0 xs" and st: "set (0 # xs) = {0..<buffer_count this}"
    and ri: "\<forall>j\<in>{0..<buffer_count this}. requirements_index (buffers_sorted_by_offset this j)
                     = buffer_ids_sorted_by_size this j"
    by (simp_all add: placed_def)
  have "requirements_index (buffers_sorted_by_offset this j) \<in> {0..<buffer_count this} \<and>
        (nxt this j = -1 \<or> nxt this j \<in> {0..<buffer_count this})"
    if j: "j \<in> set (0 # xs)" for j
  proof -
    from j have j': "j \<in> {0..<buffer_count this}" by (simp only: st)
    with s ri have "requirements_index (buffers_sorted_by_offset this j) \<in> {0..<buffer_count this}"
      unfolding sorted_ids_def by (metis imageI)
    moreover have "nxt this j = -1 \<or> nxt this j \<in> set (0 # xs)"
      using linked_next [OF lk j] by auto
    ultimately show ?thesis by (simp only: st)
  qed
  then have "\<forall>e\<in>set (map (buffers_sorted_by_offset this) (0 # xs)).
      requirements_index e \<in> {0..<buffer_count this} \<and>
      (next_entry_index e = -1 \<or> next_entry_index e \<in> {0..<buffer_count this})"
    unfolding set_map nxt_def by blast
  with entries_from_linked [OF lk] show ?thesis by blast
qed

text \<open>Two concrete planners for the instances below.\<close>

lemma two_buffers_high_water:
  "map_option fst (GetMaximumMemorySize
     (add_buffers (GreedyMemoryPlanner_ctor zeroed_storage) [(100, 0, 9), (40, 0, 9)])) = Some 140"
  by code_simp

lemma two_buffers:
  "buffer_count (add_buffers (GreedyMemoryPlanner_ctor mem) [(s0, f0, l0), (s1, f1, l1)]) = 2"
  "requirements (add_buffers (GreedyMemoryPlanner_ctor mem) [(s0, f0, l0), (s1, f1, l1)]) 0
     = \<lparr>size_bytes = s0, first_time_used = f0, last_time_used = l0\<rparr>"
  "requirements (add_buffers (GreedyMemoryPlanner_ctor mem) [(s0, f0, l0), (s1, f1, l1)]) 1
     = \<lparr>size_bytes = s1, first_time_used = f1, last_time_used = l1\<rparr>"
  "need_to_calculate_offsets (add_buffers (GreedyMemoryPlanner_ctor mem) [(s0, f0, l0), (s1, f1, l1)])"
  by (simp_all add: AddBuffer_def GreedyMemoryPlanner_ctor_def kMaxBufferCount_def Let_def)

lemma below_two: "i \<in> {0..<2::int} \<Longrightarrow> i = 0 \<or> i = 1"
  by auto

lemma sum_below_two: "(\<Sum>i\<in>{0..<2::int}. g i) = g 0 + g 1" for g :: "int \<Rightarrow> int"
proof -
  have "{0..<2::int} = {0, 1}" by auto
  then show ?thesis by simp
qed





text \<open>
  Sums that leave the range of \<open>int\<close>. For the batch \<open>(2000000000,0,0)\<close>,
  \<open>(1500000000,0,0)\<close> the sum \<open>offset + size\<close> of the second buffer wraps around and
  \<open>GetMaximumMemorySize\<close> returns 2000000000; with a third buffer \<open>(10,0,0)\<close> the offset
  computed for it wraps around, and the walk of the list no longer ascends.
\<close>

lemma high_water_mark_wraps:
  "map_option fst (GetMaximumMemorySize
     (add_buffers (GreedyMemoryPlanner_ctor zeroed_storage)
        [(2000000000, 0, 0), (1500000000, 0, 0)])) = Some 2000000000"
  by code_simp

lemma offset_list_wraps:
  "case CalculateOffsetsIfNeeded
          (add_buffers (GreedyMemoryPlanner_ctor zeroed_storage)
             [(2000000000, 0, 0), (1500000000, 0, 0), (10, 0, 0)]) of
     None \<Rightarrow> False
   | Some this \<Rightarrow>
       map_option (map offset) (entries_from this 0) = Some [0, - 794967296, 2000000000]"
  by code_simp

section \<open>Adding a buffer: AddBuffer\<close>

text \<open>
  Claim C5. On every planner a client can hold, \<open>AddBuffer\<close> fails exactly when
  \<open>buffer_count_\<close> equals the capacity 1024: it then returns false, reports one
  diagnostic whose argument is the capacity, and leaves the planner as it is. Below the
  capacity it returns true, reports nothing, stores the record at index
  \<open>buffer_count_\<close>, increments the count and sets the dirty flag; nothing else
  changes.
\<close>

theorem AddBuffer_capacity:
  assumes "reachable this"
  shows "AddBuffer this error_reporter s f l =
     (if buffer_count this = kMaxBufferCount
      then (False,
            error_reporter @ [(''Too many buffers (max is %d)'', [IntArg 1024])],
            this)
      else (True, error_reporter,
            this\<lparr>requirements := (requirements this)
                    (buffer_count this :=
                       \<lparr>size_bytes = s, first_time_used = f, last_time_used = l\<rparr>),
                 buffer_count := buffer_count this + 1,
                 need_to_calculate_offsets := True\<rparr>))"
proof -
  from reachable_inv [OF assms] have "buffer_count this \<le> kMaxBufferCount"
    by (simp add: planner_inv_def)
  then show ?thesis
    by (simp add: AddBuffer_def Report_def Let_def kMaxBufferCount_def)
qed

theorem AddBuffer_capacity_witness:
  "AddBuffer (GreedyMemoryPlanner_ctor zeroed_storage) [] 100 0 5 =
     (True, [],
      (GreedyMemoryPlanner_ctor zeroed_storage)
        \<lparr>requirements := (requirements (GreedyMemoryPlanner_ctor zeroed_storage))
            (0 := \<lparr>size_bytes = 100, first_time_used = 0, last_time_used = 5\<rparr>),
         buffer_count := 1, need_to_calculate_offsets := True\<rparr>) \<and>
   AddBuffer (add_buffers (GreedyMemoryPlanner_ctor zeroed_storage) (replicate 1024 (1, 0, 0)))
       [] 100 0 5 =
     (False, [(''Too many buffers (max is %d)'', [IntArg 1024])],
      add_buffers (GreedyMemoryPlanner_ctor zeroed_storage) (replicate 1024 (1, 0, 0)))"
proof -
  let ?p = "GreedyMemoryPlanner_ctor zeroed_storage"
  let ?q = "add_buffers ?p (replicate 1024 (1, 0, 0))"
  have c0: "buffer_count ?p = 0" by (simp add: GreedyMemoryPlanner_ctor_def)
  then have "buffer_count ?p \<le> kMaxBufferCount" by (simp add: kMaxBufferCount_def)
  from buffer_count_add_buffers [OF this, of "replicate 1024 (1, 0, 0)"]
  have cq: "buffer_count ?q = kMaxBufferCount" by (simp add: c0 kMaxBufferCount_def)
  have rp: "reachable ?p" by (rule reachable.fresh)
  then have rq: "reachable ?q"
    by (rule reachable_add_buffers) (simp add: list_all_iff small_int_value)
  show ?thesis
    using AddBuffer_capacity [OF rp, of "[]" 100 0 5] AddBuffer_capacity [OF rq, of "[]" 100 0 5]
      c0 cq
    by (simp add: kMaxBufferCount_def)
qed

section \<open>Reading an offset: GetOffsetForBuffer\<close>

text \<open>
  The body of \<open>GetOffsetForBuffer\<close> as one equation: outside \<open>[0, buffer_count)\<close> it
  returns false, reports one diagnostic whose arguments are the offending index and the
  count that bounds the range, and leaves the output location as it was; inside the
  range it returns true, reports nothing and copies the entry of \<open>buffer_offsets_\<close>,
  whatever that entry holds.
\<close>

lemma GetOffsetForBuffer_eq:
  "GetOffsetForBuffer this error_reporter buffer_index offset_out =
     (if 0 \<le> buffer_index \<and> buffer_index < buffer_count this
      then (True, error_reporter, buffer_offsets this buffer_index)
      else (False,
            error_reporter @ [(''buffer index %d is outside range 0 to %d'',
                               [IntArg buffer_index, IntArg (buffer_count this)])],
            offset_out))"
  by (simp add: GetOffsetForBuffer_def Report_def)

text \<open>
  Claim C6. The half of the claim about indices outside the range holds; the half
  about indices inside it does not: what \<open>GetOffsetForBuffer\<close> writes need not be the
  offset of the buffer. After \<open>AddBuffer(10,0,9)\<close>, \<open>AddBuffer(20,0,9)\<close>,
  \<open>GetMaximumMemorySize()\<close> (30) and \<open>AddBuffer(30,0,9)\<close> the planner holds three
  buffers. The calls with the indices 3 and -1 return false, report the index and the
  count 3 and leave the output location (holding 7) as it was. The call with the index
  0 returns true and writes 20, while the layout of these three buffers places buffer 2
  at offset 0, buffer 1 at offset 30 and buffer 0 at offset 50, and 50 is what the call
  yields once a layout pass has run.
\<close>

theorem GetOffsetForBuffer_in_range_not_the_offset:
  "case GetMaximumMemorySize
          (add_buffers (GreedyMemoryPlanner_ctor zeroed_storage) [(10, 0, 9), (20, 0, 9)]) of
     None \<Rightarrow> False
   | Some (m1, p1) \<Rightarrow>
       (let p2 = snd (snd (AddBuffer p1 [] 30 0 9))
        in m1 = 30 \<and> buffer_count p2 = 3 \<and>
           GetOffsetForBuffer p2 [] 3 7 =
             (False, [(''buffer index %d is outside range 0 to %d'', [IntArg 3, IntArg 3])], 7) \<and>
           GetOffsetForBuffer p2 [] (- 1) 7 =
             (False, [(''buffer index %d is outside range 0 to %d'', [IntArg (- 1), IntArg 3])], 7) \<and>
           GetOffsetForBuffer p2 [] 0 7 = (True, [], 20) \<and>
           (case CalculateOffsetsIfNeeded p2 of
              None \<Rightarrow> False
            | Some p3 \<Rightarrow>
                map_option (map (\<lambda>e. (requirements_index e, offset e))) (entries_from p3 0)
                  = Some [(2, 0), (1, 30), (0, 50)] \<and>
                GetOffsetForBuffer p3 [] 0 7 = (True, [], 50)))"
  by code_simp

theorem GetOffsetForBuffer_in_range_not_the_offset_witness:
  "\<exists>m1 p1. GetMaximumMemorySize
              (add_buffers (GreedyMemoryPlanner_ctor zeroed_storage) [(10, 0, 9), (20, 0, 9)])
            = Some (m1, p1) \<and>
     buffer_count (snd (snd (AddBuffer p1 [] 30 0 9))) = 3 \<and>
     GetOffsetForBuffer (snd (snd (AddBuffer p1 [] 30 0 9))) [] 0 7 = (True, [], 20) \<and>
     (\<exists>p3 es. CalculateOffsetsIfNeeded (snd (snd (AddBuffer p1 [] 30 0 9))) = Some p3 \<and>
        entries_from p3 0 = Some es \<and>
        map (\<lambda>e. (requirements_index e, offset e)) es = [(2, 0), (1, 30), (0, 50)] \<and>
        GetOffsetForBuffer p3 [] 0 7 = (True, [], 50))"
  using GetOffsetForBuffer_in_range_not_the_offset
  by (auto simp: Let_def split: option.splits)

section \<open>The empty diagram: PrintMemoryPlan\<close>

text \<open>
  Claim C10. With no buffer added, \<open>PrintMemoryPlan\<close> returns, leaves the planner
  as it is and reports exactly one message: the format \<open>%s\<close> with a line of
  exactly 80 dots. The time loop runs once, for \<open>t = 0\<close>.
\<close>

theorem PrintMemoryPlan_empty:
  "buffer_count this = 0 \<Longrightarrow>
   PrintMemoryPlan this error_reporter =
     Some (error_reporter @ [(''%s'', [StrArg (replicate 80 CHR ''.'')])], this)"
  by (simp add: PrintMemoryPlan_def CalculateOffsetsIfNeeded_def plan_extent_def
      plan_line_def kLineWidth_def Report_def map_replicate_const INT_MAX_def)

theorem PrintMemoryPlan_empty_witness:
  "buffer_count (GreedyMemoryPlanner_ctor zeroed_storage) = 0 \<and>
   PrintMemoryPlan (GreedyMemoryPlanner_ctor zeroed_storage) [] =
     Some ([(''%s'', [StrArg (replicate 80 CHR ''.'')])], GreedyMemoryPlanner_ctor zeroed_storage)"
  using PrintMemoryPlan_empty [of "GreedyMemoryPlanner_ctor zeroed_storage" "[]"]
  by (simp add: GreedyMemoryPlanner_ctor_def)

section \<open>The high-water mark: GetMaximumMemorySize\<close>

text \<open>
  Claim C4. On every planner a client can hold whose buffers have sizes that are not
  negative (the data model of the buffers), \<open>GetMaximumMemorySize\<close> returns. With no
  buffer it returns 0. Otherwise the plan is current afterwards, the walk of the offset
  list from the head visits one node for every buffer id in \<open>[0, buffer_count)\<close>,
  each id once, and the value returned is exactly the maximum over these nodes of
  \<open>offset + size\<close>, the sum being the \<open>int\<close> sum of the code. When the sizes of all
  buffers together do not exceed \<open>INT_MAX\<close>, no sum of the plan leaves the range of
  \<open>int\<close>, and the value returned is the maximum of the sums \<open>offset + size\<close> as
  integers.
\<close>

theorem GetMaximumMemorySize_high_water_mark:
  assumes "reachable this"
    and "\<forall>i\<in>{0..<buffer_count this}. 0 \<le> size_bytes (requirements this i)"
  shows "\<exists>m this' es. GetMaximumMemorySize this = Some (m, this') \<and>
           (if buffer_count this = 0 then m = 0
            else entries_from this' 0 = Some es \<and>
                 distinct (map requirements_index es) \<and>
                 set (map requirements_index es) = {0..<buffer_count this} \<and>
                 m = Max ((\<lambda>e. int32 (offset e
                              + size_bytes (requirements this (requirements_index e)))) ` set es) \<and>
                 ((\<Sum>i\<in>{0..<buffer_count this}. size_bytes (requirements this i)) \<le> INT_MAX
                  \<longrightarrow> m = Max ((\<lambda>e. offset e
                              + size_bytes (requirements this (requirements_index e))) ` set es)))"
proof -
  from GetMaximumMemorySize_reachable [OF reachable_inv [OF assms(1)]] obtain this' where
    r: "requirements this' = requirements this" "buffer_count this' = buffer_count this"
       "0 < buffer_count this \<longrightarrow> planned this'"
       "GetMaximumMemorySize this =
          Some (if buffer_count this = 0 then 0
                else Max (insert 0 (end_of this' ` {0..<buffer_count this})), this')"
       "planner_inv this'"
    by blast
  show ?thesis
  proof (cases "buffer_count this = 0")
    case True
    with r(4) show ?thesis by simp
  next
    case False
    let ?n = "buffer_count this"
    from False r(5) r(2) have pos: "0 < ?n" by (simp add: planner_inv_def)
    with r(3) have pl: "planned this'" by simp
    from r(5) have iv: "\<forall>i\<in>{0..<buffer_count this'}. int_value (size_bytes (requirements this' i))"
      by (simp add: planner_inv_def)
    from pl obtain xs where
      x: "placed this' (buffer_count this') xs"
         "sizes_fit this' \<longrightarrow> ordered this' (buffer_count this') xs"
      unfolding planned_def by blast
    define es where "es = map (buffers_sorted_by_offset this') (0 # xs)"
    from x(1) have lk: "linked (nxt this') 0 xs"
      and st: "set (0 # xs) = {0..<?n}" and d: "distinct (0 # xs)"
      and ri: "\<forall>j\<in>{0..<?n}. requirements_index (buffers_sorted_by_offset this' j)
                     = buffer_ids_sorted_by_size this' j"
      by (simp_all add: placed_def r(2))
    have ef: "entries_from this' 0 = Some es"
      using entries_from_linked [OF lk] by (simp add: es_def)
    from pl have si: "buffer_ids_sorted_by_size this' ` {0..<?n} = {0..<?n}"
      "inj_on (buffer_ids_sorted_by_size this') {0..<?n}"
      by (auto simp: planned_def sorted_ids_def r(2))
    have m: "map requirements_index es = map (buffer_ids_sorted_by_size this') (0 # xs)"
      unfolding es_def map_map using ri by (intro map_cong refl) (simp only: st [symmetric] o_def)
    have d': "distinct (map requirements_index es)"
      unfolding m distinct_map using d si(2) by (simp only: st)
    have s': "set (map requirements_index es) = {0..<?n}"
      unfolding m set_map by (simp only: st si(1))
    have img: "(\<lambda>e. int32 (offset e + size_bytes (requirements this (requirements_index e)))) ` set es
                = end_of this' ` {0..<?n}"
      unfolding es_def set_map image_image st by (simp add: end_of_def r(1))
    have h: "end_of this' 0 \<in> end_of this' ` {0..<?n}" using pos by simp
    have "0 \<le> end_of this' 0"
      using planned_head(1,2) [OF pl iv] assms(2) r(1) r(2) by simp
    then have "0 \<le> Max (end_of this' ` {0..<?n})"
      using h by (meson Max_ge finite_atLeastLessThan_int finite_imageI order_trans)
    then have mx: "Max (insert 0 (end_of this' ` {0..<?n})) = Max (end_of this' ` {0..<?n})"
      using h by (subst Max_insert) auto
    have exact: "(\<lambda>e. offset e + size_bytes (requirements this (requirements_index e))) ` set es
                  = end_of this' ` {0..<?n}"
      if le: "(\<Sum>i\<in>{0..<?n}. size_bytes (requirements this i)) \<le> INT_MAX"
    proof -
      from le assms(2) have "sizes_fit this'" by (simp add: sizes_fit_def r(1) r(2))
      with x(2) have o: "ordered this' ?n xs" by (simp add: r(2))
      have pm: "prefix_size this' ?n \<le> INT_MAX"
      proof -
        have bij: "bij_betw (buffer_ids_sorted_by_size this') {0..<?n} {0..<?n}"
          using si by (simp add: bij_betw_def)
        have "prefix_size this' ?n = (\<Sum>i\<in>{0..<?n}. size_bytes (requirements this' i))"
          unfolding prefix_size_def by (rule sum.reindex_bij_betw [OF bij])
        with le show ?thesis by (simp add: r(1))
      qed
      have "end_of this' j = offset (buffers_sorted_by_offset this' j)
              + size_bytes (requirements this (requirements_index (buffers_sorted_by_offset this' j)))"
        if j: "j \<in> {0..<?n}" for j
      proof -
        let ?e = "offs this' j
                  + size_bytes (requirements this' (buffer_ids_sorted_by_size this' j))"
        from o j have o0: "0 \<le> offs this' j" and b: "?e \<le> prefix_size this' ?n"
          unfolding ordered_def by blast+
        from si(1) j have "buffer_ids_sorted_by_size this' j \<in> {0..<?n}" by blast
        with assms(2) have "0 \<le> size_bytes (requirements this' (buffer_ids_sorted_by_size this' j))"
          by (simp only: r(1))
        with o0 have "0 \<le> ?e" by simp
        moreover from b pm have "?e \<le> INT_MAX" by simp
        ultimately have "int32 ?e = ?e" by (intro int32_id int_valueI)
        with ri j show ?thesis by (simp add: end_of_def offs_def r(1))
      qed
      then show ?thesis
        unfolding es_def set_map image_image st by (intro image_cong refl) simp
    qed
    show ?thesis
      using r(4) False ef d' s' img mx exact
      by (intro exI [of _ "Max (end_of this' ` {0..<?n})"] exI [of _ this'] exI [of _ es]) simp
  qed
qed

theorem GetMaximumMemorySize_high_water_mark_witness:
  "\<exists>m this' es. GetMaximumMemorySize
       (add_buffers (GreedyMemoryPlanner_ctor zeroed_storage) [(100, 0, 9), (40, 0, 9)])
       = Some (m, this') \<and>
     m = 140 \<and>
     entries_from this' 0 = Some es \<and>
     distinct (map requirements_index es) \<and>
     set (map requirements_index es) = {0..<2} \<and>
     m = Max ((\<lambda>e. int32 (offset e + size_bytes (requirements
                (add_buffers (GreedyMemoryPlanner_ctor zeroed_storage) [(100, 0, 9), (40, 0, 9)])
                (requirements_index e)))) ` set es) \<and>
     m = Max ((\<lambda>e. offset e + size_bytes (requirements
                (add_buffers (GreedyMemoryPlanner_ctor zeroed_storage) [(100, 0, 9), (40, 0, 9)])
                (requirements_index e))) ` set es)"
proof -
  let ?p = "add_buffers (GreedyMemoryPlanner_ctor zeroed_storage) [(100, 0, 9), (40, 0, 9)]"
  have r: "reachable ?p"
    by (intro reachable_add_buffers reachable.fresh) (simp add: small_int_value)
  have h: "\<forall>i\<in>{0..<buffer_count ?p}. 0 \<le> size_bytes (requirements ?p i)"
    unfolding two_buffers(1) using two_buffers(2,3) [of zeroed_storage 100 0 9 40 0 9]
    by (auto dest!: below_two)
  have c: "buffer_count ?p \<noteq> 0" unfolding two_buffers(1) by simp
  have s: "(\<Sum>i\<in>{0..<buffer_count ?p}. size_bytes (requirements ?p i)) \<le> INT_MAX"
    unfolding two_buffers(1) sum_below_two two_buffers(2,3) by (simp add: INT_MAX_def)
  let ?int_sums = "\<lambda>es. (\<lambda>e. int32 (offset e
                + size_bytes (requirements ?p (requirements_index e)))) ` set es"
  let ?sums = "\<lambda>es. (\<lambda>e. offset e
                + size_bytes (requirements ?p (requirements_index e))) ` set es"
  from GetMaximumMemorySize_high_water_mark [OF r h] obtain m this' es where
    g0: "GetMaximumMemorySize ?p = Some (m, this')"
      "if buffer_count ?p = 0 then m = 0
       else entries_from this' 0 = Some es \<and>
            distinct (map requirements_index es) \<and>
            set (map requirements_index es) = {0..<buffer_count ?p} \<and>
            m = Max (?int_sums es) \<and>
            ((\<Sum>i\<in>{0..<buffer_count ?p}. size_bytes (requirements ?p i)) \<le> INT_MAX
             \<longrightarrow> m = Max (?sums es))"
    by blast
  from g0(2) have "entries_from this' 0 = Some es \<and>
            distinct (map requirements_index es) \<and>
            set (map requirements_index es) = {0..<buffer_count ?p} \<and>
            m = Max (?int_sums es) \<and>
            ((\<Sum>i\<in>{0..<buffer_count ?p}. size_bytes (requirements ?p i)) \<le> INT_MAX
             \<longrightarrow> m = Max (?sums es))"
    unfolding if_not_P [OF c] .
  with s g0(1) have
    g: "GetMaximumMemorySize ?p = Some (m, this')"
       "entries_from this' 0 = Some es"
       "distinct (map requirements_index es)"
       "set (map requirements_index es) = {0..<buffer_count ?p}"
       "m = Max (?int_sums es)"
       "m = Max (?sums es)"
    by blast+
  from g(1) two_buffers_high_water have m: "m = 140" by simp
  have st: "set (map requirements_index es) = {0..<2}"
    using g(4) by (simp only: two_buffers(1))
  show ?thesis
    by (intro exI [of _ m] exI [of _ this'] exI [of _ es] conjI g(1) m g(2) g(3) st g(5) g(6))
qed

text \<open>
  Claim C9. On every planner a client can hold with at least one buffer,
  \<open>GetMaximumMemorySize\<close> returns a value that is at least the size of every buffer
  added, so at least the maximum of the sizes.
\<close>

theorem GetMaximumMemorySize_covers_largest_buffer:
  assumes "reachable this" and "0 < buffer_count this"
  shows "\<exists>m this'. GetMaximumMemorySize this = Some (m, this') \<and>
           (\<forall>i\<in>{0..<buffer_count this}. size_bytes (requirements this i) \<le> m)"
proof -
  from GetMaximumMemorySize_reachable [OF reachable_inv [OF assms(1)]] obtain this' where
    r: "requirements this' = requirements this" "buffer_count this' = buffer_count this"
       "0 < buffer_count this \<longrightarrow> planned this'"
       "GetMaximumMemorySize this =
          Some (if buffer_count this = 0 then 0
                else Max (insert 0 (end_of this' ` {0..<buffer_count this})), this')"
       "planner_inv this'"
    by blast
  from r(3) assms(2) have pl: "planned this'" by simp
  from r(5) have iv: "\<forall>i\<in>{0..<buffer_count this'}. int_value (size_bytes (requirements this' i))"
    by (simp add: planner_inv_def)
  define m where "m = Max (insert 0 (end_of this' ` {0..<buffer_count this}))"
  have "end_of this' 0 \<le> m"
    unfolding m_def using assms(2) by (intro Max_ge) auto
  moreover have "\<forall>i\<in>{0..<buffer_count this}. size_bytes (requirements this i) \<le> end_of this' 0"
    using planned_head(3) [OF pl iv] by (simp only: r(1) r(2))
  ultimately have "\<forall>i\<in>{0..<buffer_count this}. size_bytes (requirements this i) \<le> m"
    by (meson order_trans)
  moreover have "GetMaximumMemorySize this = Some (m, this')"
    using r(4) assms(2) by (simp add: m_def)
  ultimately show ?thesis by blast
qed

theorem GetMaximumMemorySize_covers_largest_buffer_witness:
  "\<exists>m this'. GetMaximumMemorySize
       (add_buffers (GreedyMemoryPlanner_ctor zeroed_storage) [(100, 0, 9), (40, 0, 9)])
       = Some (m, this') \<and> m = 140 \<and> 100 \<le> m \<and> 40 \<le> m"
proof -
  let ?p = "add_buffers (GreedyMemoryPlanner_ctor zeroed_storage) [(100, 0, 9), (40, 0, 9)]"
  have r: "reachable ?p" by (intro reachable_add_buffers reachable.fresh) (simp add: small_int_value)
  have n: "0 < buffer_count ?p" by (simp only: two_buffers)
  from GetMaximumMemorySize_covers_largest_buffer [OF r n] obtain m this' where
    g: "GetMaximumMemorySize ?p = Some (m, this')"
       "\<forall>i\<in>{0..<buffer_count ?p}. size_bytes (requirements ?p i) \<le> m"
    by blast
  have "(0::int) \<in> {0..<buffer_count ?p}" "(1::int) \<in> {0..<buffer_count ?p}"
    by (simp_all only: two_buffers) simp_all
  with g(2) have "size_bytes (requirements ?p 0) \<le> m" "size_bytes (requirements ?p 1) \<le> m"
    by blast+
  then have "100 \<le> m" "40 \<le> m" by (simp_all only: two_buffers) simp_all
  moreover from g(1) two_buffers_high_water have "m = 140" by simp
  ultimately show ?thesis using g(1) by blast
qed

text \<open>
  Claim C8. On every planner a client can hold, \<open>GetMaximumMemorySize\<close> returns, and
  a second call right after it returns the same value and the same planner: no member,
  so no offset of any buffer, changes. A layout pass on that planner changes nothing,
  \<open>PrintMemoryPlan\<close> returns it unchanged whenever it returns, and a call of
  \<open>GetMaximumMemorySize\<close> on a planner whose plan is current returns that planner
  unchanged.
\<close>

theorem GetMaximumMemorySize_twice:
  assumes "reachable this"
  shows "\<exists>m this'. GetMaximumMemorySize this = Some (m, this') \<and>
           GetMaximumMemorySize this' = Some (m, this') \<and>
           CalculateOffsetsIfNeeded this' = Some this' \<and>
           (\<forall>er er' this''. PrintMemoryPlan this' er = Some (er', this'') \<longrightarrow> this'' = this') \<and>
           (\<not> need_to_calculate_offsets this \<longrightarrow> this' = this)"
proof -
  from layout_inv [OF reachable_inv [OF assms]] obtain this' where
    l: "CalculateOffsetsIfNeeded this = Some this'" "planner_inv this'"
       "\<not> need_to_calculate_offsets this \<or> buffer_count this = 0 \<longrightarrow> this' = this"
       "CalculateOffsetsIfNeeded this' = Some this'"
    by blast
  from GetMaximumMemorySize_reachable [OF l(2)] l(4) obtain m where
    m: "GetMaximumMemorySize this' = Some (m, this')" by auto
  then have "GetMaximumMemorySize this = Some (m, this')"
    using l(1) l(4) by (simp add: GetMaximumMemorySize_def)
  moreover have "this'' = this'" if "PrintMemoryPlan this' er = Some (er', this'')" for er er' this''
    using PrintMemoryPlan_layout [OF that] l(4) by simp
  ultimately show ?thesis using m l(3) l(4) by blast
qed

theorem GetMaximumMemorySize_twice_witness:
  "\<exists>m this'. GetMaximumMemorySize
       (add_buffers (GreedyMemoryPlanner_ctor zeroed_storage) [(100, 0, 9), (40, 0, 9)])
       = Some (m, this') \<and>
     m = 140 \<and>
     GetMaximumMemorySize this' = Some (m, this') \<and>
     CalculateOffsetsIfNeeded this' = Some this'"
proof -
  let ?p = "add_buffers (GreedyMemoryPlanner_ctor zeroed_storage) [(100, 0, 9), (40, 0, 9)]"
  have r: "reachable ?p" by (intro reachable_add_buffers reachable.fresh) (simp add: small_int_value)
  from GetMaximumMemorySize_twice [OF r] obtain m this' where
    g: "GetMaximumMemorySize ?p = Some (m, this')"
       "GetMaximumMemorySize this' = Some (m, this')"
       "CalculateOffsetsIfNeeded this' = Some this'"
    by blast
  from g(1) two_buffers_high_water have "m = 140" by simp
  with g show ?thesis by blast
qed

section \<open>The order of the offset list\<close>




section \<open>Offsets the layout never records\<close>

lemma layout_single:
  "buffer_count this = 1 \<Longrightarrow> need_to_calculate_offsets this \<Longrightarrow>
   \<exists>this'. CalculateOffsetsIfNeeded this = Some this'
     \<and> buffer_offsets this' = buffer_offsets this
     \<and> buffer_count this' = 1 \<and> requirements this' = requirements this
     \<and> buffers_sorted_by_offset this' 0 =
           \<lparr>offset = 0, requirements_index = 0, next_entry_index = -1\<rparr>"
  by (simp add: CalculateOffsetsIfNeeded_def ReverseSortInPlace_def
      place_loop.simps [of _ 1] Let_def)

text \<open>
  Claim C2 (scenario S2). On a fresh planner with the single buffer
  \<open>(size = 100, first = 0, last = 5)\<close>, \<open>GetMaximumMemorySize\<close> returns 100, but
  \<open>GetOffsetForBuffer(0)\<close> does not yield the offset 0 of the plan. It succeeds and
  yields what the storage of \<open>buffer_offsets_[0]\<close> held before the planner was
  constructed, whether or not a layout pass ran before: \<open>GetOffsetForBuffer\<close> starts no
  layout pass, and the layout pass writes \<open>buffer_offsets_\<close> for the buffers it places
  in its loop only, never for the largest buffer it seeds the list with.
\<close>

theorem single_buffer_offset_never_written:
  "GetOffsetForBuffer (snd (snd (AddBuffer (GreedyMemoryPlanner_ctor mem) er 100 0 5))) er' 0 out
     = (True, er', buffer_offsets mem 0) \<and>
   (\<exists>this'. GetMaximumMemorySize (snd (snd (AddBuffer (GreedyMemoryPlanner_ctor mem) er 100 0 5)))
              = Some (100, this')
      \<and> GetOffsetForBuffer this' er' 0 out = (True, er', buffer_offsets mem 0))"
proof -
  let ?p = "snd (snd (AddBuffer (GreedyMemoryPlanner_ctor mem) er 100 0 5))"
  have c: "buffer_count ?p = 1" and d: "need_to_calculate_offsets ?p"
    and r: "requirements ?p 0 = \<lparr>size_bytes = 100, first_time_used = 0, last_time_used = 5\<rparr>"
    and b: "buffer_offsets ?p = buffer_offsets mem"
    by (simp_all add: AddBuffer_def GreedyMemoryPlanner_ctor_def kMaxBufferCount_def)
  from layout_single [OF c d] obtain this' where
    l: "CalculateOffsetsIfNeeded ?p = Some this'" "buffer_offsets this' = buffer_offsets ?p"
       "buffer_count this' = 1" "requirements this' = requirements ?p"
       "buffers_sorted_by_offset this' 0 =
          \<lparr>offset = 0, requirements_index = 0, next_entry_index = -1\<rparr>"
    by blast
  have "max_size_loop this' 0 0 = Some 100"
    using l r by (simp add: max_size_loop.simps [of _ 0] int32_def)
  then have "GetMaximumMemorySize ?p = Some (100, this')"
    using l by (simp add: GetMaximumMemorySize_def)
  moreover have "GetOffsetForBuffer this' er' 0 out = (True, er', buffer_offsets mem 0)"
    using l b by (simp add: GetOffsetForBuffer_def)
  moreover have "GetOffsetForBuffer ?p er' 0 out = (True, er', buffer_offsets mem 0)"
    using c b by (simp add: GetOffsetForBuffer_def)
  ultimately show ?thesis by blast
qed

theorem single_buffer_offset_never_written_witness:
  "GetOffsetForBuffer
     (snd (snd (AddBuffer
        (GreedyMemoryPlanner_ctor (zeroed_storage\<lparr>buffer_offsets := (\<lambda>i. 7)\<rparr>)) [] 100 0 5)))
     [] 0 0 = (True, [], 7) \<and>
   (\<exists>this'. GetMaximumMemorySize
      (snd (snd (AddBuffer
         (GreedyMemoryPlanner_ctor (zeroed_storage\<lparr>buffer_offsets := (\<lambda>i. 7)\<rparr>)) [] 100 0 5)))
        = Some (100, this')
      \<and> GetOffsetForBuffer this' [] 0 0 = (True, [], 7))"
  using single_buffer_offset_never_written
    [of "zeroed_storage\<lparr>buffer_offsets := (\<lambda>i. 7)\<rparr>" "[]" "[]" 0]
  by simp

text \<open>
  Claim C3. \<open>GetOffsetForBuffer\<close> does not run the layout of a dirty planner. After
  \<open>AddBuffer(100,0,9)\<close>, \<open>AddBuffer(40,0,9)\<close>, \<open>GetMaximumMemorySize()\<close> (140) and
  \<open>AddBuffer(60,0,9)\<close> the planner is dirty, and \<open>GetOffsetForBuffer(1)\<close> succeeds with
  the offset 100 of the earlier plan; the plan of the three buffers, computed by the
  next \<open>GetMaximumMemorySize()\<close> (200), puts buffer 1 at offset 160.
\<close>

theorem GetOffsetForBuffer_returns_stale_offset:
  "case GetMaximumMemorySize
          (add_buffers (GreedyMemoryPlanner_ctor zeroed_storage) [(100, 0, 9), (40, 0, 9)]) of
     None \<Rightarrow> False
   | Some (m1, p1) \<Rightarrow>
       (let p2 = snd (snd (AddBuffer p1 [] 60 0 9))
        in m1 = 140 \<and> need_to_calculate_offsets p2 \<and>
           GetOffsetForBuffer p2 [] 1 0 = (True, [], 100) \<and>
           (case GetMaximumMemorySize p2 of
              None \<Rightarrow> False
            | Some (m2, p3) \<Rightarrow> m2 = 200 \<and> GetOffsetForBuffer p3 [] 1 0 = (True, [], 160)))"
  by code_simp

theorem GetOffsetForBuffer_returns_stale_offset_witness:
  "\<exists>m1 p1. GetMaximumMemorySize
              (add_buffers (GreedyMemoryPlanner_ctor zeroed_storage) [(100, 0, 9), (40, 0, 9)])
            = Some (m1, p1) \<and>
     need_to_calculate_offsets (snd (snd (AddBuffer p1 [] 60 0 9))) \<and>
     GetOffsetForBuffer (snd (snd (AddBuffer p1 [] 60 0 9))) [] 1 0 = (True, [], 100) \<and>
     (\<exists>m2 p3. GetMaximumMemorySize (snd (snd (AddBuffer p1 [] 60 0 9))) = Some (m2, p3) \<and>
        GetOffsetForBuffer p3 [] 1 0 = (True, [], 160))"
  using GetOffsetForBuffer_returns_stale_offset
  by (auto simp: Let_def split: option.splits)

section \<open>Buffers live together that share bytes\<close>

text \<open>
  Claim C1. The layout pass does not keep buffers that are live together apart. For
  the batch \<open>(1000,5,5)\<close>, \<open>(100,0,0)\<close>, \<open>(10,1,1)\<close>, \<open>(5,0,1)\<close>, all with
  \<open>size > 0\<close> and \<open>first \<le> last\<close>, buffer 1 (size 100, live at step 0) is placed at
  offset 0 and buffer 3 (size 5, live at steps 0 and 1) at offset 10: both are live at
  step 0 and the bytes 10 to 14 belong to both. The gap scan places a buffer behind the
  last conflicting node in offset order, buffer 2 here, which ends at byte 10, without
  regard to the earlier conflicting node that ends beyond it.
\<close>

theorem layout_overlaps_live_buffers:
  "case CalculateOffsetsIfNeeded
          (add_buffers (GreedyMemoryPlanner_ctor zeroed_storage)
             [(1000, 5, 5), (100, 0, 0), (10, 1, 1), (5, 0, 1)]) of
     None \<Rightarrow> False
   | Some this \<Rightarrow>
       map (requirements this) [1, 3] =
         [\<lparr>size_bytes = 100, first_time_used = 0, last_time_used = 0\<rparr>,
          \<lparr>size_bytes = 5, first_time_used = 0, last_time_used = 1\<rparr>] \<and>
       map (buffer_offsets this) [1, 3] = [0, 10]"
  by code_simp

theorem layout_overlaps_live_buffers_witness:
  "\<exists>this. CalculateOffsetsIfNeeded
             (add_buffers (GreedyMemoryPlanner_ctor zeroed_storage)
                [(1000, 5, 5), (100, 0, 0), (10, 1, 1), (5, 0, 1)]) = Some this \<and>
     first_time_used (requirements this 1) \<le> last_time_used (requirements this 3) \<and>
     first_time_used (requirements this 3) \<le> last_time_used (requirements this 1) \<and>
     10 \<in> {buffer_offsets this 1 ..< buffer_offsets this 1 + size_bytes (requirements this 1)}
          \<inter> {buffer_offsets this 3 ..< buffer_offsets this 3 + size_bytes (requirements this 3)}"
  using layout_overlaps_live_buffers
  by (auto split: option.splits)

end